theory Spec2Isabelle
  imports Complex_Main "HOL-Library.List_Lexorder" "HOL-Library.Multiset"
begin

section \<open>Data model\<close>

text \<open>
  A Python \<open>str\<close> is a sequence of Unicode code points; a code point is a natural
  number (\<open>ord\<close>). Python floats are modelled as exact rationals: every threshold test
  of the scripts compares a quotient of two small counts, or a one-decimal percentage,
  with a decimal constant.
\<close>

type_synonym pystr = "nat list"

text \<open>The code points of an ASCII literal.\<close>

definition cps :: "string \<Rightarrow> pystr" where
  "cps s = map of_char s"

text \<open>
  A location of the relationship detector: the tuple \<open>(file, sheet, uniqueness_pct)\<close>
  that \<open>phased_analyzer_v3.py\<close> appends to \<open>col_sheet_map[nc]\<close>, and the fields
  \<open>file\<close>, \<open>sheet\<close>, \<open>uniq\<close> of the dict that \<open>clean_report.py\<close> appends (its
  \<open>missing\<close> and \<open>dtype\<close> fields are not read by the key detection).
\<close>

type_synonym loc = "pystr \<times> pystr \<times> rat"

definition loc_file :: "loc \<Rightarrow> pystr" where
  "loc_file l = fst l"

definition loc_sheet :: "loc \<Rightarrow> pystr" where
  "loc_sheet l = fst (snd l)"

definition loc_uniq :: "loc \<Rightarrow> rat" where
  "loc_uniq l = snd (snd l)"

text \<open>A column profile, as far as the relationship detection reads it.\<close>

record profile =
  p_file :: pystr
  p_sheet :: pystr
  p_norm_col :: pystr
  p_uniqueness_pct :: rat

section \<open>Phase 1 records\<close>

text \<open>
  One dict of \<open>phase1\<close> per scanned sheet, as far as the later phases read it:
  \<open>rec["file"]\<close>, \<open>rec["sheet"]\<close> and \<open>rec["norm_cols"]\<close>.
\<close>

record sheet_rec =
  r_file :: pystr
  r_sheet :: pystr
  r_norm_cols :: "pystr list"

text \<open>
  The keys of a dict (or Counter) filled by inserting \<open>xs\<close> from left to right: every
  key once, in the order of first insertion.
\<close>

definition dict_keys :: "'a list \<Rightarrow> 'a list" where
  "dict_keys xs = rev (remdups (rev xs))"

section \<open>Canonical identity merge\<close>

text \<open>
  \<open>col_freq\<close> counts every normalized header of every record; v3 skips the empty ones
  (\<open>if not norm: continue\<close>, then \<open>norm_keys = [k for k in col_freq if k]\<close>), the first
  analyzer takes all of them (\<open>norm_keys = list(col_freq.keys())\<close>).
\<close>

definition norm_keys :: "sheet_rec list \<Rightarrow> pystr list" where
  "norm_keys phase1 = filter (\<lambda>k. k \<noteq> []) (dict_keys (filter (\<lambda>n. n \<noteq> []) (concat (map r_norm_cols phase1))))"

definition norm_keys_v1 :: "sheet_rec list \<Rightarrow> pystr list" where
  "norm_keys_v1 phase1 = dict_keys (concat (map r_norm_cols phase1))"

definition COL_SIM_THRESH :: rat where
  "COL_SIM_THRESH = 80 / 100"

text \<open>
  The two nested loops. \<open>ratio a b\<close> stands for
  \<open>SequenceMatcher(None, a, b).ratio()\<close> of \<open>difflib\<close>, which is not code of the
  repository: it is a parameter. \<open>merged\<close> is the dict alias \<open>\<mapsto>\<close> canonical.
\<close>

fun merge_inner :: "(pystr \<Rightarrow> pystr \<Rightarrow> rat) \<Rightarrow> pystr \<Rightarrow> pystr list \<Rightarrow> (pystr \<rightharpoonup> pystr) \<Rightarrow> (pystr \<rightharpoonup> pystr)" where
  "merge_inner ratio ki [] mg = mg"
| "merge_inner ratio ki (kj # rest) mg =
     (if mg kj \<noteq> None then merge_inner ratio ki rest mg
      else if ratio ki kj \<ge> COL_SIM_THRESH then merge_inner ratio ki rest (mg(kj \<mapsto> ki))
      else merge_inner ratio ki rest mg)"

fun merge_outer :: "(pystr \<Rightarrow> pystr \<Rightarrow> rat) \<Rightarrow> pystr list \<Rightarrow> (pystr \<rightharpoonup> pystr) \<Rightarrow> (pystr \<rightharpoonup> pystr)" where
  "merge_outer ratio [] mg = mg"
| "merge_outer ratio (ki # rest) mg =
     (if mg ki \<noteq> None then merge_outer ratio rest mg
      else merge_outer ratio rest (merge_inner ratio ki rest mg))"

definition merged :: "(pystr \<Rightarrow> pystr \<Rightarrow> rat) \<Rightarrow> pystr list \<Rightarrow> (pystr \<rightharpoonup> pystr)" where
  "merged ratio keys = merge_outer ratio keys Map.empty"

text \<open>\<open>merged.get(k, k)\<close>\<close>

definition canon :: "(pystr \<rightharpoonup> pystr) \<Rightarrow> pystr \<Rightarrow> pystr" where
  "canon mg k = (case mg k of None \<Rightarrow> k | Some c \<Rightarrow> c)"

section \<open>Key relationship detection\<close>

text \<open>
  \<open>col_sheet_map = defaultdict(list)\<close>: a dict keeps its keys in the order of their
  first insertion, so it is an association list; \<open>d[k].append(v)\<close> is \<open>dl_append\<close>.
\<close>

fun dl_append :: "'k \<Rightarrow> 'v \<Rightarrow> ('k \<times> 'v list) list \<Rightarrow> ('k \<times> 'v list) list" where
  "dl_append k v [] = [(k, [v])]"
| "dl_append k v ((k', vs) # m) =
     (if k = k' then (k', vs @ [v]) # m else (k', vs) # dl_append k v m)"

text \<open>
  \<open>for p in deep_profiles: nc = p["norm_col"]; if not nc: continue;
  col_sheet_map[nc].append((p["file"], p["sheet"], p["uniqueness_pct"]))\<close>
\<close>

fun col_sheet_map_from :: "(pystr \<times> loc list) list \<Rightarrow> profile list \<Rightarrow> (pystr \<times> loc list) list" where
  "col_sheet_map_from m [] = m"
| "col_sheet_map_from m (p # ps) =
     (if p_norm_col p = [] then col_sheet_map_from m ps
      else col_sheet_map_from
             (dl_append (p_norm_col p) (p_file p, p_sheet p, p_uniqueness_pct p) m) ps)"

definition col_sheet_map :: "profile list \<Rightarrow> (pystr \<times> loc list) list" where
  "col_sheet_map ps = col_sheet_map_from [] ps"

text \<open>\<open>high = [(f,s,u) for f,s,u in locs if u > 70]\<close>, \<open>low = [... if u <= 70]\<close>\<close>

definition high :: "loc list \<Rightarrow> loc list" where
  "high locs = filter (\<lambda>l. loc_uniq l > 70) locs"

definition low :: "loc list \<Rightarrow> loc list" where
  "low locs = filter (\<lambda>l. loc_uniq l \<le> 70) locs"


text \<open>
  An edge is the dict \<open>(column, pk_file, pk_sheet, pk_uniq, fk_file, fk_sheet, fk_uniq)\<close>:
  the column with the two locations.
\<close>

type_synonym fk_edge = "pystr \<times> loc \<times> loc"

definition fk_edges :: "pystr \<Rightarrow> loc list \<Rightarrow> loc list \<Rightarrow> fk_edge list" where
  "fk_edges nc hs ls = concat (map (\<lambda>h. map (\<lambda>l. (nc, h, l)) ls) hs)"

fun fk_pairs :: "(pystr \<times> loc list) list \<Rightarrow> fk_edge list" where
  "fk_pairs [] = []"
| "fk_pairs ((nc, locs) # rest) =
     (if length locs < 2 then fk_pairs rest
      else (if high locs \<noteq> [] \<and> low locs \<noteq> [] then fk_edges nc (high locs) (low locs) else [])
           @ fk_pairs rest)"

text \<open>
  \<open>clean_report.py\<close> rebuilds both lists from the data dictionary that v3 wrote. Its
  gate is on the number of distinct files, and it pairs only the first three
  locations of either side: \<open>for h in high[:3]: for l in low[:3]\<close>. An edge there is
  \<open>(col, pk, pk_u, fk, fk_u)\<close> with \<open>pk = f"{h['file']}/{h['sheet']}"\<close>.
\<close>

definition files_set :: "loc list \<Rightarrow> pystr set" where
  "files_set locs = set (map loc_file locs)"


type_synonym clean_edge = "pystr \<times> pystr \<times> rat \<times> pystr \<times> rat"

definition loc_label :: "loc \<Rightarrow> pystr" where
  "loc_label l = loc_file l @ cps ''/'' @ loc_sheet l"

definition clean_edge :: "pystr \<Rightarrow> loc \<Rightarrow> loc \<Rightarrow> clean_edge" where
  "clean_edge nc h l = (nc, loc_label h, loc_uniq h, loc_label l, loc_uniq l)"

definition clean_edges :: "pystr \<Rightarrow> loc list \<Rightarrow> loc list \<Rightarrow> clean_edge list" where
  "clean_edges nc hs ls =
     concat (map (\<lambda>h. map (\<lambda>l. clean_edge nc h l) (take 3 ls)) (take 3 hs))"

fun clean_fk_pairs :: "(pystr \<times> loc list) list \<Rightarrow> clean_edge list" where
  "clean_fk_pairs [] = []"
| "clean_fk_pairs ((nc, locs) # rest) =
     (if card (files_set locs) < 2 then clean_fk_pairs rest
      else (if high locs \<noteq> [] \<and> low locs \<noteq> [] then clean_edges nc (high locs) (low locs) else [])
           @ clean_fk_pairs rest)"

text \<open>
  The rows \<open>named_dd\<close> that \<open>clean_report.py\<close> reads are the profiles whose normalized
  name does not start with \<open>unnamed_\<close>; its \<open>col_sheet_map\<close> takes every such row.
\<close>

definition startswith :: "pystr \<Rightarrow> pystr \<Rightarrow> bool" where
  "startswith s pre = (take (length pre) s = pre)"

fun clean_col_sheet_map_from :: "(pystr \<times> loc list) list \<Rightarrow> profile list \<Rightarrow> (pystr \<times> loc list) list" where
  "clean_col_sheet_map_from m [] = m"
| "clean_col_sheet_map_from m (p # ps) =
     (if startswith (p_norm_col p) (cps ''unnamed_'') then clean_col_sheet_map_from m ps
      else clean_col_sheet_map_from
             (dl_append (p_norm_col p) (p_file p, p_sheet p, p_uniqueness_pct p) m) ps)"

definition clean_col_sheet_map :: "profile list \<Rightarrow> (pystr \<times> loc list) list" where
  "clean_col_sheet_map ps = clean_col_sheet_map_from [] ps"

text \<open>
  The locations of a column name among the profiles, in the order of the profiles:
  what the loops above collect under that name when they do not skip it.
\<close>

definition loc_of :: "profile \<Rightarrow> loc" where
  "loc_of p = (p_file p, p_sheet p, p_uniqueness_pct p)"

definition locs_of :: "pystr \<Rightarrow> profile list \<Rightarrow> loc list" where
  "locs_of nc ps = map loc_of (filter (\<lambda>p. p_norm_col p = nc) ps)"

text \<open>A device of the proofs: the two builders are one loop over the profiles they keep.\<close>

definition collect :: "(profile \<Rightarrow> bool) \<Rightarrow> (pystr \<times> loc list) list \<Rightarrow> profile list \<Rightarrow> (pystr \<times> loc list) list" where
  "collect keep m ps = foldl (\<lambda>m p. if keep p then dl_append (p_norm_col p) (loc_of p) m else m) m ps"

section \<open>Sheet clustering\<close>

text \<open>\<open>key = f"{rec['file']}|{rec['sheet']}"\<close>\<close>

definition key_of :: "sheet_rec \<Rightarrow> pystr" where
  "key_of rec = r_file rec @ cps ''|'' @ r_sheet rec"

text \<open>\<open>sheet_name_groups[rec["sheet"]].append(key)\<close> for every record.\<close>

definition sheet_name_groups :: "sheet_rec list \<Rightarrow> (pystr \<times> pystr list) list" where
  "sheet_name_groups phase1 = foldl (\<lambda>m rec. dl_append (r_sheet rec) (key_of rec) m) [] phase1"

text \<open>
  \<open>d[k] = v\<close> on a dict in insertion order: a new key goes to the end, an old key
  keeps its place and takes the new value.
\<close>

fun dict_set :: "'k \<Rightarrow> 'v \<Rightarrow> ('k \<times> 'v) list \<Rightarrow> ('k \<times> 'v) list" where
  "dict_set k v [] = [(k, v)]"
| "dict_set k v ((k', v') # m) = (if k = k' then (k, v) # m else (k', v') # dict_set k v m)"

text \<open>
  The canonical column set of a record: v3 skips the empty names, the first analyzer
  keeps them.
\<close>

definition colset :: "(pystr \<rightharpoonup> pystr) \<Rightarrow> sheet_rec \<Rightarrow> pystr set" where
  "colset mg rec = set (map (canon mg) (filter (\<lambda>n. n \<noteq> []) (r_norm_cols rec)))"

definition colset_v1 :: "(pystr \<rightharpoonup> pystr) \<Rightarrow> sheet_rec \<Rightarrow> pystr set" where
  "colset_v1 mg rec = set (map (canon mg) (r_norm_cols rec))"

definition sheet_colsets :: "(pystr \<rightharpoonup> pystr) \<Rightarrow> sheet_rec list \<Rightarrow> (pystr \<times> pystr set) list" where
  "sheet_colsets mg phase1 = foldl (\<lambda>m rec. dict_set (key_of rec) (colset mg rec) m) [] phase1"

definition sheet_colsets_v1 :: "(pystr \<rightharpoonup> pystr) \<Rightarrow> sheet_rec list \<Rightarrow> (pystr \<times> pystr set) list" where
  "sheet_colsets_v1 mg phase1 = foldl (\<lambda>m rec. dict_set (key_of rec) (colset_v1 mg rec) m) [] phase1"

text \<open>
  \<open>sheet_colsets.get(m, set())\<close>. The second phase reads \<open>sheet_colsets[k]\<close> only
  for keys of the dict, where the two agree.
\<close>

definition cs_get :: "(pystr \<times> pystr set) list \<Rightarrow> pystr \<Rightarrow> pystr set" where
  "cs_get cs k = (case map_of cs k of None \<Rightarrow> {} | Some s \<Rightarrow> s)"

text \<open>\<open>jaccard\<close> of the phased analyzers: 0 on two empty sets.\<close>

definition jaccard :: "'a set \<Rightarrow> 'a set \<Rightarrow> rat" where
  "jaccard sa sb =
     (if sa = {} \<and> sb = {} then 0 else of_nat (card (sa \<inter> sb)) / of_nat (card (sa \<union> sb)))"

definition CLUSTER_OVERLAP :: rat where
  "CLUSTER_OVERLAP = 40 / 100"

datatype via = SheetName | Jaccard

record cluster =
  members :: "pystr list"
  union_cols :: "pystr set"
  via :: via

text \<open>The three variables the clustering loops update.\<close>

record cstate =
  assigned :: "pystr \<rightharpoonup> nat"
  clusters :: "(nat \<times> cluster) list"
  cid :: nat

definition cstate0 :: cstate where
  "cstate0 = \<lparr>assigned = Map.empty, clusters = [], cid = 0\<rparr>"

text \<open>\<open>for g in group: assigned[g] = cid\<close>\<close>

definition assign_all :: "(pystr \<rightharpoonup> nat) \<Rightarrow> pystr list \<Rightarrow> nat \<Rightarrow> (pystr \<rightharpoonup> nat)" where
  "assign_all asg grp c = foldl (\<lambda>a g. a(g \<mapsto> c)) asg grp"

text \<open>
  Phase A, the loop over \<open>sheet_name_groups.items()\<close>. \<open>members[0]\<close> is read only
  when the group has two members or more.
\<close>

fun name_pass :: "(pystr \<times> pystr set) list \<Rightarrow> (pystr \<times> pystr list) list \<Rightarrow> cstate \<Rightarrow> cstate" where
  "name_pass cs [] st = st"
| "name_pass cs ((sname, mems) # rest) st =
     (if length mems < 2 then name_pass cs rest st
      else let representative = cs_get cs (hd mems) in
        if representative = {} then name_pass cs rest st
        else let grp = filter (\<lambda>m. jaccard representative (cs_get cs m) \<ge> 30 / 100
                                     \<or> cs_get cs m = representative) mems in
          if length grp \<ge> 2
          then name_pass cs rest
                 \<lparr>assigned = assign_all (assigned st) grp (cid st + 1),
                  clusters = clusters st @
                    [(cid st + 1, \<lparr>members = grp, union_cols = \<Union> (set (map (cs_get cs) grp)),
                                   via = SheetName\<rparr>)],
                  cid = cid st + 1\<rparr>
          else name_pass cs rest st)"

text \<open>
  Phase B, the inner loop over \<open>remaining[i+1:]\<close>: it grows \<open>members\<close>, \<open>ccols\<close>
  and \<open>assigned\<close> of the cluster \<open>c\<close>.
\<close>

fun grow :: "(pystr \<times> pystr set) list \<Rightarrow> pystr list \<Rightarrow> nat
    \<Rightarrow> pystr list \<times> pystr set \<times> (pystr \<rightharpoonup> nat) \<Rightarrow> pystr list \<times> pystr set \<times> (pystr \<rightharpoonup> nat)" where
  "grow cs [] c acc = acc"
| "grow cs (kj # rest) c (ms, ccols, asg) =
     (if asg kj \<noteq> None then grow cs rest c (ms, ccols, asg)
      else if jaccard ccols (cs_get cs kj) \<ge> CLUSTER_OVERLAP
      then grow cs rest c (ms @ [kj], ccols \<union> cs_get cs kj, asg(kj \<mapsto> c))
      else grow cs rest c (ms, ccols, asg))"

text \<open>Phase B, the outer loop over \<open>remaining\<close>.\<close>

fun jaccard_pass :: "(pystr \<times> pystr set) list \<Rightarrow> pystr list \<Rightarrow> cstate \<Rightarrow> cstate" where
  "jaccard_pass cs [] st = st"
| "jaccard_pass cs (k # rest) st =
     (if assigned st k \<noteq> None then jaccard_pass cs rest st
      else case grow cs rest (cid st + 1) ([k], cs_get cs k, (assigned st)(k \<mapsto> cid st + 1)) of
        (ms, ccols, asg) \<Rightarrow>
          jaccard_pass cs rest
            \<lparr>assigned = asg,
             clusters = clusters st @
               [(cid st + 1, \<lparr>members = ms, union_cols = ccols, via = Jaccard\<rparr>)],
             cid = cid st + 1\<rparr>)"

text \<open>
  The clustering of \<open>phased_analyzer_v3.py\<close>: Phase A, then Phase B over
  \<open>remaining = [k for k in sheet_colsets if k not in assigned]\<close>.
\<close>

definition cluster_sheets :: "(pystr \<rightharpoonup> pystr) \<Rightarrow> sheet_rec list \<Rightarrow> cstate" where
  "cluster_sheets mg phase1 =
     (let cs = sheet_colsets mg phase1;
          st = name_pass cs (sheet_name_groups phase1) cstate0;
          remaining = filter (\<lambda>k. assigned st k = None) (map fst cs)
      in jaccard_pass cs remaining st)"

text \<open>
  The clustering of \<open>phased_analyzer.py\<close>: the Jaccard loops alone, over
  \<open>keys = list(sheet_colsets.keys())\<close>. Its cluster dicts carry no \<open>via\<close> entry.
\<close>

definition cluster_sheets_v1 :: "(pystr \<rightharpoonup> pystr) \<Rightarrow> sheet_rec list \<Rightarrow> cstate" where
  "cluster_sheets_v1 mg phase1 =
     (let cs = sheet_colsets_v1 mg phase1 in jaccard_pass cs (map fst cs) cstate0)"

text \<open>All member lists, in the order of the cluster ids.\<close>

definition all_members :: "cstate \<Rightarrow> pystr list" where
  "all_members st = concat (map (\<lambda>c. members (snd c)) (clusters st))"

section \<open>Deep profiling of the columns of a sheet\<close>

text \<open>
  What the \<open>try\<close> block of the column loop computes before it appends: the locals
  \<open>str(col)\<close>, \<open>normalize_col(str(col))\<close>, \<open>dtype\<close>, \<open>missing_pct\<close>, \<open>pats\<close>,
  \<open>nuniq\<close>, \<open>top5\<close> (as the JSON text) and \<open>uniqueness\<close>.
\<close>

record col_stats =
  s_column :: pystr
  s_norm_col :: pystr
  s_dtype :: pystr
  s_missing_pct :: rat
  s_patterns :: "(pystr \<times> rat) list"
  s_nuniq :: nat
  s_top5 :: pystr
  s_uniqueness :: rat

text \<open>
  An entry of \<open>deep_profiles\<close>: \<open>rec["file"]\<close>, \<open>rec["sheet"]\<close>, the statistics and
  \<open>cluster_id\<close>. An entry of \<open>quality_issues\<close> is one of two formatted strings. An
  entry of \<open>errors_log\<close> names the column and the exception (v2 only), or the
  sheet that could not be read again and the exception.
\<close>

type_synonym deep_entry = "pystr \<times> pystr \<times> col_stats \<times> nat"

datatype issue = NullHeavy pystr pystr pystr rat | MixedType pystr pystr pystr

datatype 'e log_entry = ColumnError pystr pystr pystr 'e | DeepRead pystr pystr 'e

record 'e pstate =
  deep_profiles :: "deep_entry list"
  quality_issues :: "issue list"
  errors_log :: "'e log_entry list"

text \<open>\<open>assigned.get(f"{rec['file']}|{rec['sheet']}", 0)\<close>\<close>

definition cluster_id_of :: "(pystr \<rightharpoonup> nat) \<Rightarrow> sheet_rec \<Rightarrow> nat" where
  "cluster_id_of asg rec = (case asg (key_of rec) of None \<Rightarrow> 0 | Some c \<Rightarrow> c)"

text \<open>
  The quality flags of v3 (\<open>missing_pct > 70 and missing_pct < 100\<close>;
  \<open>dtype == "mixed" and missing_pct < 50\<close>) and of v2 (\<open>missing_pct > 70\<close>;
  \<open>dtype == "mixed"\<close>).
\<close>

definition flags_v3 :: "sheet_rec \<Rightarrow> col_stats \<Rightarrow> issue list" where
  "flags_v3 rec s =
     (if s_missing_pct s > 70 \<and> s_missing_pct s < 100
      then [NullHeavy (r_file rec) (r_sheet rec) (s_column s) (s_missing_pct s)] else []) @
     (if s_dtype s = cps ''mixed'' \<and> s_missing_pct s < 50
      then [MixedType (r_file rec) (r_sheet rec) (s_column s)] else [])"

definition flags_v2 :: "sheet_rec \<Rightarrow> col_stats \<Rightarrow> issue list" where
  "flags_v2 rec s =
     (if s_missing_pct s > 70
      then [NullHeavy (r_file rec) (r_sheet rec) (s_column s) (s_missing_pct s)] else []) @
     (if s_dtype s = cps ''mixed''
      then [MixedType (r_file rec) (r_sheet rec) (s_column s)] else [])"

text \<open>
  The column loop. \<open>attempt col\<close> stands for the statements of the \<open>try\<close> block that
  call pandas and the inference helpers: \<open>Inr\<close> the statistics, or \<open>Inl\<close> the exception
  one of them raised. What follows them (the two appends and the comparisons) raises
  nothing. v3 handles the exception with \<open>pass\<close>, v2 logs it.
\<close>

fun profile_columns_v3 :: "('c \<Rightarrow> 'e + col_stats) \<Rightarrow> (pystr \<rightharpoonup> nat) \<Rightarrow> sheet_rec
    \<Rightarrow> 'c list \<Rightarrow> 'e pstate \<Rightarrow> 'e pstate" where
  "profile_columns_v3 attempt asg rec [] st = st"
| "profile_columns_v3 attempt asg rec (col # cols) st =
     (case attempt col of
        Inl e \<Rightarrow> profile_columns_v3 attempt asg rec cols st
      | Inr s \<Rightarrow> profile_columns_v3 attempt asg rec cols
          (st\<lparr>deep_profiles := deep_profiles st @ [(r_file rec, r_sheet rec, s, cluster_id_of asg rec)],
              quality_issues := quality_issues st @ flags_v3 rec s\<rparr>))"

fun profile_columns_v2 :: "('c \<Rightarrow> 'e + col_stats) \<Rightarrow> ('c \<Rightarrow> pystr) \<Rightarrow> (pystr \<rightharpoonup> nat) \<Rightarrow> sheet_rec
    \<Rightarrow> 'c list \<Rightarrow> 'e pstate \<Rightarrow> 'e pstate" where
  "profile_columns_v2 attempt label asg rec [] st = st"
| "profile_columns_v2 attempt label asg rec (col # cols) st =
     (case attempt col of
        Inl e \<Rightarrow> profile_columns_v2 attempt label asg rec cols
          (st\<lparr>errors_log := errors_log st @ [ColumnError (r_file rec) (r_sheet rec) (label col) e]\<rparr>)
      | Inr s \<Rightarrow> profile_columns_v2 attempt label asg rec cols
          (st\<lparr>deep_profiles := deep_profiles st @ [(r_file rec, r_sheet rec, s, cluster_id_of asg rec)],
              quality_issues := quality_issues st @ flags_v2 rec s\<rparr>))"

text \<open>The columns whose attempt raises nothing.\<close>

definition succeeds :: "('c \<Rightarrow> 'e + col_stats) \<Rightarrow> 'c \<Rightarrow> bool" where
  "succeeds attempt col = (case attempt col of Inl e \<Rightarrow> False | Inr s \<Rightarrow> True)"

text \<open>The entries that the columns of a sheet add to \<open>deep_profiles\<close>.\<close>

definition entries :: "('c \<Rightarrow> 'e + col_stats) \<Rightarrow> (pystr \<rightharpoonup> nat) \<Rightarrow> sheet_rec \<Rightarrow> 'c list \<Rightarrow> deep_entry list" where
  "entries attempt asg rec cols =
     concat (map (\<lambda>col. case attempt col of Inl e \<Rightarrow> []
                          | Inr s \<Rightarrow> [(r_file rec, r_sheet rec, s, cluster_id_of asg rec)]) cols)"

text \<open>
  The entries they add to \<open>quality_issues\<close>, for the flags of either version, and
  the entries that v2 adds to \<open>errors_log\<close>.
\<close>

definition issues :: "(sheet_rec \<Rightarrow> col_stats \<Rightarrow> issue list) \<Rightarrow> ('c \<Rightarrow> 'e + col_stats) \<Rightarrow> sheet_rec
    \<Rightarrow> 'c list \<Rightarrow> issue list" where
  "issues flags attempt rec cols =
     concat (map (\<lambda>col. case attempt col of Inl e \<Rightarrow> [] | Inr s \<Rightarrow> flags rec s) cols)"

definition col_errors :: "('c \<Rightarrow> 'e + col_stats) \<Rightarrow> ('c \<Rightarrow> pystr) \<Rightarrow> sheet_rec \<Rightarrow> 'c list
    \<Rightarrow> 'e log_entry list" where
  "col_errors attempt label rec cols =
     concat (map (\<lambda>col. case attempt col of
                           Inl e \<Rightarrow> [ColumnError (r_file rec) (r_sheet rec) (label col) e]
                         | Inr s \<Rightarrow> []) cols)"

text \<open>
  The loop over \<open>phase1\<close> around the column loop of v3. \<open>read rec\<close> stands for
  reading the sheet again with pandas and choosing \<open>cols_to_profile\<close> (all the
  columns, or the 200 most populated ones of a wide sheet): \<open>Inr\<close> the columns, or
  \<open>Inl\<close> the exception, which is logged before the loop goes on with the next sheet.
\<close>

fun deep_profile_v3 :: "(sheet_rec \<Rightarrow> 'e + 'c list) \<Rightarrow> (sheet_rec \<Rightarrow> 'c \<Rightarrow> 'e + col_stats)
    \<Rightarrow> (pystr \<rightharpoonup> nat) \<Rightarrow> sheet_rec list \<Rightarrow> 'e pstate \<Rightarrow> 'e pstate" where
  "deep_profile_v3 read attempt asg [] st = st"
| "deep_profile_v3 read attempt asg (rec # rest) st =
     (case read rec of
        Inl e \<Rightarrow> deep_profile_v3 read attempt asg rest
          (st\<lparr>errors_log := errors_log st @ [DeepRead (r_file rec) (r_sheet rec) e]\<rparr>)
      | Inr cols \<Rightarrow> deep_profile_v3 read attempt asg rest
          (profile_columns_v3 (attempt rec) asg rec cols st))"

text \<open>The same sheets with the failing columns taken out of every sheet.\<close>

definition drop_failing :: "(sheet_rec \<Rightarrow> 'e + 'c list) \<Rightarrow> (sheet_rec \<Rightarrow> 'c \<Rightarrow> 'e + col_stats)
    \<Rightarrow> sheet_rec \<Rightarrow> 'e + 'c list" where
  "drop_failing read attempt rec =
     (case read rec of Inl e \<Rightarrow> Inl e | Inr cols \<Rightarrow> Inr (filter (succeeds (attempt rec)) cols))"

section \<open>Uniqueness of a column\<close>

text \<open>
  A pandas Series is a list of cells, \<open>None\<close> for a missing one (NaN).
  \<open>round(x, n)\<close> on the exact value: to the nearest multiple of \<open>10 ^ -n\<close>, a tie
  to the even one. (A float that stands for a decimal tie lies a little to one side of
  it, and Python rounds it to that side; nothing below rests on a tie.)
\<close>

definition round_half_even :: "rat \<Rightarrow> int" where
  "round_half_even x =
     (let f = floor x; d = x - of_int f
      in if d < 1 / 2 then f else if d > 1 / 2 then f + 1 else if even f then f else f + 1)"

definition py_round :: "nat \<Rightarrow> rat \<Rightarrow> rat" where
  "py_round n x = of_int (round_half_even (x * 10 ^ n)) / 10 ^ n"

text \<open>\<open>ser.dropna()\<close> and \<open>ser.nunique()\<close>, which counts the distinct values that are not missing.\<close>

definition dropna :: "'a option list \<Rightarrow> 'a list" where
  "dropna ser = concat (map (\<lambda>c. case c of None \<Rightarrow> [] | Some v \<Rightarrow> [v]) ser)"

definition nunique :: "'a option list \<Rightarrow> nat" where
  "nunique ser = length (remdups (dropna ser))"

text \<open>
  The phased analyzers (all three versions):
  \<open>uniqueness = round(nuniq / max(len(ser), 1) * 100, 1)\<close>, where \<open>len(ser)\<close> counts
  the missing cells as well.
\<close>

definition uniqueness_pct :: "'a option list \<Rightarrow> rat" where
  "uniqueness_pct ser = py_round 1 (of_nat (nunique ser) / of_nat (max (length ser) 1) * 100)"

text \<open>
  \<open>str.strip()\<close>: the characters that Python counts as whitespace are a parameter.
\<close>

definition strip :: "(nat \<Rightarrow> bool) \<Rightarrow> pystr \<Rightarrow> pystr" where
  "strip isspace s = rev (dropWhile isspace (rev (dropWhile isspace s)))"

text \<open>
  \<open>analyze_spreadsheets.py\<close>, over \<open>non_null = ser.dropna().astype(str).str.strip()\<close>:
  \<open>unique_ratio = float(non_null.nunique() / max(1, len(non_null))) if len(non_null)
  else 0.0\<close>, stored as \<open>round(unique_ratio, 4)\<close>.
\<close>

definition unique_ratio :: "(nat \<Rightarrow> bool) \<Rightarrow> pystr option list \<Rightarrow> rat" where
  "unique_ratio isspace ser =
     (let non_null = map (strip isspace) (dropna ser)
      in py_round 4 (if length non_null \<noteq> 0
           then of_nat (length (remdups non_null)) / of_nat (max 1 (length non_null)) else 0))"

text \<open>Whitespace of ASCII text: tab to carriage return, the four separators, the blank.\<close>

definition ascii_space :: "nat \<Rightarrow> bool" where
  "ascii_space c = ((9 \<le> c \<and> c \<le> 13) \<or> (28 \<le> c \<and> c \<le> 32))"

section \<open>Column name normalization\<close>

text \<open>The character class \<open>[a-z0-9]\<close>, by code point.\<close>

definition lower_alnum :: "nat \<Rightarrow> bool" where
  "lower_alnum c = ((97 \<le> c \<and> c \<le> 122) \<or> (48 \<le> c \<and> c \<le> 57))"

text \<open>
  \<open>re.sub(r"[...]+", repl, s)\<close> for a character class: every maximal run of
  characters of the class is replaced by \<open>repl\<close>.
\<close>

function re_sub_runs :: "(nat \<Rightarrow> bool) \<Rightarrow> pystr \<Rightarrow> pystr \<Rightarrow> pystr" where
  "re_sub_runs cls repl [] = []"
| "re_sub_runs cls repl (c # s) =
     (if cls c then repl @ re_sub_runs cls repl (dropWhile cls s)
      else c # re_sub_runs cls repl s)"
  by pat_completeness auto
termination
  by (relation "measure (\<lambda>(cls, repl, s). length s)")
     (auto simp: length_dropWhile_le le_imp_less_Suc)

text \<open>
  \<open>normalize_col\<close> of the phased analyzers:
  \<open>s = re.sub(r"[^a-z0-9]+", "_", str(name).lower().strip()); return s.strip("_")\<close>.
  \<open>str.lower\<close> and the whitespace of \<open>str.strip\<close> are Unicode tables of Python, not code
  of the repository: they are the parameters \<open>lower\<close> and \<open>isspace\<close>.
\<close>

definition normalize_col :: "(pystr \<Rightarrow> pystr) \<Rightarrow> (nat \<Rightarrow> bool) \<Rightarrow> pystr \<Rightarrow> pystr" where
  "normalize_col lower isspace name =
     strip (\<lambda>c. c = 95)
       (re_sub_runs (\<lambda>c. \<not> lower_alnum c) (cps ''_'') (strip isspace (lower name)))"

text \<open>
  \<open>normalize_col\<close> of \<open>analyze_spreadsheets.py\<close>:
  \<open>s = str(name).strip().lower(); s = re.sub(r"\s+", "_", s);
  s = re.sub(r"[^a-z0-9_]+", "", s); return s or "unnamed"\<close>.
\<close>

definition normalize_col_a :: "(pystr \<Rightarrow> pystr) \<Rightarrow> (nat \<Rightarrow> bool) \<Rightarrow> pystr \<Rightarrow> pystr" where
  "normalize_col_a lower isspace name =
     (let s = lower (strip isspace name);
          s = re_sub_runs isspace (cps ''_'') s;
          s = re_sub_runs (\<lambda>c. \<not> (lower_alnum c \<or> c = 95)) [] s
      in if s = [] then cps ''unnamed'' else s)"

text \<open>Lowering of ASCII text, character by character.\<close>

definition ascii_lower :: "pystr \<Rightarrow> pystr" where
  "ascii_lower s = map (\<lambda>c. if 65 \<le> c \<and> c \<le> 90 then c + 32 else c) s"

text \<open>
  What a substitution of \<open>_\<close> for the runs of a class leaves: a character of the class
  is a single \<open>_\<close>, followed by a character outside the class or by nothing.
\<close>

fun collapsed :: "(nat \<Rightarrow> bool) \<Rightarrow> pystr \<Rightarrow> bool" where
  "collapsed P [] = True"
| "collapsed P [c] = (P c \<longrightarrow> c = 95)"
| "collapsed P (c # d # s) = ((P c \<longrightarrow> c = 95 \<and> \<not> P d) \<and> collapsed P (d # s))"

section \<open>Structural redundancy\<close>

text \<open>
  The record that the scan of phase 1 appends for a sheet, as far as the later phases
  read it: \<open>norm = [normalize_col(h) for h in headers]\<close>, then
  \<open>phase1.append(dict(file=rel, sheet=sname, ..., norm_cols=norm))\<close>. A sheet without
  rows has no headers.
\<close>

definition scan_rec :: "(pystr \<Rightarrow> pystr) \<Rightarrow> (nat \<Rightarrow> bool) \<Rightarrow> pystr \<times> pystr \<times> pystr list \<Rightarrow> sheet_rec" where
  "scan_rec lower isspace fsh =
     (case fsh of (file, sheet, headers) \<Rightarrow>
        \<lparr>r_file = file, r_sheet = sheet, r_norm_cols = map (normalize_col lower isspace) headers\<rparr>)"

definition phase1_of :: "(pystr \<Rightarrow> pystr) \<Rightarrow> (nat \<Rightarrow> bool) \<Rightarrow> (pystr \<times> pystr \<times> pystr list) list \<Rightarrow> sheet_rec list" where
  "phase1_of lower isspace sheets = map (scan_rec lower isspace) sheets"

text \<open>\<open>"|".join(xs)\<close>\<close>

fun join_bar :: "pystr list \<Rightarrow> pystr" where
  "join_bar [] = []"
| "join_bar [x] = x"
| "join_bar (x # y # ys) = x @ 124 # join_bar (y # ys)"

text \<open>
  v3: \<open>sig = "|".join(sorted(set(n for n in rec["norm_cols"] if n))[:30])\<close>. Python
  compares texts by code points, as the lexicographic order of the lists does.
\<close>

definition sorted_names :: "sheet_rec \<Rightarrow> pystr list" where
  "sorted_names rec = sort (remdups (filter (\<lambda>n. n \<noteq> []) (r_norm_cols rec)))"

definition sheet_sig :: "sheet_rec \<Rightarrow> pystr" where
  "sheet_sig rec = join_bar (take 30 (sorted_names rec))"

text \<open>The first analyzer: \<open>colsig = "|".join(sorted(rec["norm_cols"][:20]))\<close>.\<close>

definition sheet_sig_v1 :: "sheet_rec \<Rightarrow> pystr" where
  "sheet_sig_v1 rec = join_bar (sort (take 20 (r_norm_cols rec)))"

text \<open>
  \<open>for rec in phase1: sig = ...; fp = hashlib.md5(sig.encode()).hexdigest();
  sheet_fps[fp].append(f"{rec['file']}|{rec['sheet']}")\<close>, for either signature.
  \<open>md5\<close> stands for the digest of \<open>hashlib\<close>, which is not code of the repository.
\<close>

fun fps_from :: "(sheet_rec \<Rightarrow> pystr) \<Rightarrow> (pystr \<Rightarrow> 'h) \<Rightarrow> ('h \<times> pystr list) list \<Rightarrow> sheet_rec list
    \<Rightarrow> ('h \<times> pystr list) list" where
  "fps_from sig md5 m [] = m"
| "fps_from sig md5 m (rec # rest) = fps_from sig md5 (dl_append (md5 (sig rec)) (key_of rec) m) rest"

definition sheet_fps :: "(pystr \<Rightarrow> 'h) \<Rightarrow> sheet_rec list \<Rightarrow> ('h \<times> pystr list) list" where
  "sheet_fps md5 phase1 = fps_from sheet_sig md5 [] phase1"

definition sheet_fingerprints :: "(pystr \<Rightarrow> 'h) \<Rightarrow> sheet_rec list \<Rightarrow> ('h \<times> pystr list) list" where
  "sheet_fingerprints md5 phase1 = fps_from sheet_sig_v1 md5 [] phase1"

text \<open>\<open>redundant = {fp: m for fp, m in sheet_fps.items() if len(m) > 1}\<close>\<close>

definition redundant :: "('h \<times> pystr list) list \<Rightarrow> ('h \<times> pystr list) list" where
  "redundant fps = filter (\<lambda>(fp, m). length m > 1) fps"

text \<open>Two sheets land in the same redundancy group: a group lists both keys.\<close>

definition same_group :: "('h \<times> pystr list) list \<Rightarrow> pystr \<Rightarrow> pystr \<Rightarrow> bool" where
  "same_group groups ka kb = (\<exists>(fp, m) \<in> set groups. ka \<in> set m \<and> kb \<in> set m)"

text \<open>A device of the proofs: the parts of a text between its bars.\<close>

fun split_bar :: "pystr \<Rightarrow> pystr list" where
  "split_bar [] = [[]]"
| "split_bar (c # s) =
     (if c = 124 then [] # split_bar s
      else (c # hd (split_bar s)) # tl (split_bar s))"

section \<open>Example inputs\<close>

text \<open>
  Two workbooks whose headers differ in a plural; the ratio of the two spellings is
  \<open>2 * 11 / (11 + 12)\<close>.
\<close>

definition ex_ratio :: "pystr \<Rightarrow> pystr \<Rightarrow> rat" where
  "ex_ratio a b =
     (if a = b then 1
      else if (a = cps ''part_number'' \<and> b = cps ''part_numbers'') \<or>
              (a = cps ''part_numbers'' \<and> b = cps ''part_number'') then 22 / 23
      else 0)"

definition ex_phase1 :: "sheet_rec list" where
  "ex_phase1 =
     [\<lparr>r_file = cps ''a.xlsx'', r_sheet = cps ''Parts'',
        r_norm_cols = [cps ''part_number'', cps ''sku'', []]\<rparr>,
      \<lparr>r_file = cps ''b.xlsx'', r_sheet = cps ''Parts'',
        r_norm_cols = [cps ''part_numbers'', cps ''sku'']\<rparr>]"






text \<open>The same four situations with one location of high and one of low uniqueness.\<close>

definition ex_same_file_fk :: "profile list" where
  "ex_same_file_fk =
    [\<lparr>p_file = cps ''a.xlsx'', p_sheet = cps ''S1'', p_norm_col = cps ''sku'', p_uniqueness_pct = 100\<rparr>,
     \<lparr>p_file = cps ''a.xlsx'', p_sheet = cps ''S2'', p_norm_col = cps ''sku'', p_uniqueness_pct = 10\<rparr>]"

definition ex_alias_fk :: "profile list" where
  "ex_alias_fk =
    [\<lparr>p_file = cps ''a.xlsx'', p_sheet = cps ''Parts'', p_norm_col = cps ''part_number'', p_uniqueness_pct = 100\<rparr>,
     \<lparr>p_file = cps ''b.xlsx'', p_sheet = cps ''Parts'', p_norm_col = cps ''part_numbers'', p_uniqueness_pct = 10\<rparr>]"

definition ex_unnamed_fk :: "profile list" where
  "ex_unnamed_fk =
    [\<lparr>p_file = cps ''f1.csv'', p_sheet = cps ''(csv)'', p_norm_col = cps ''unnamed_1'', p_uniqueness_pct = 100\<rparr>,
     \<lparr>p_file = cps ''f2.csv'', p_sheet = cps ''(csv)'', p_norm_col = cps ''unnamed_1'', p_uniqueness_pct = 10\<rparr>]"

definition ex_empty_fk :: "profile list" where
  "ex_empty_fk =
    [\<lparr>p_file = cps ''f1.csv'', p_sheet = cps ''(csv)'', p_norm_col = [], p_uniqueness_pct = 100\<rparr>,
     \<lparr>p_file = cps ''f2.csv'', p_sheet = cps ''(csv)'', p_norm_col = [], p_uniqueness_pct = 10\<rparr>]"

text \<open>One column with four locations of high uniqueness and one of low uniqueness.\<close>

definition ex_four_high :: "profile list" where
  "ex_four_high =
    [\<lparr>p_file = cps ''f1.csv'', p_sheet = cps ''(csv)'', p_norm_col = cps ''sku'', p_uniqueness_pct = 100\<rparr>,
     \<lparr>p_file = cps ''f2.csv'', p_sheet = cps ''(csv)'', p_norm_col = cps ''sku'', p_uniqueness_pct = 100\<rparr>,
     \<lparr>p_file = cps ''f3.csv'', p_sheet = cps ''(csv)'', p_norm_col = cps ''sku'', p_uniqueness_pct = 100\<rparr>,
     \<lparr>p_file = cps ''f4.csv'', p_sheet = cps ''(csv)'', p_norm_col = cps ''sku'', p_uniqueness_pct = 100\<rparr>,
     \<lparr>p_file = cps ''f5.csv'', p_sheet = cps ''(csv)'', p_norm_col = cps ''sku'', p_uniqueness_pct = 10\<rparr>]"

definition ex_four_high_locs :: "loc list" where
  "ex_four_high_locs =
    [(cps ''f1.csv'', cps ''(csv)'', 100), (cps ''f2.csv'', cps ''(csv)'', 100),
     (cps ''f3.csv'', cps ''(csv)'', 100), (cps ''f4.csv'', cps ''(csv)'', 100),
     (cps ''f5.csv'', cps ''(csv)'', 10)]"

text \<open>
  Scenario B of the specification: two workbooks share the sheet name \<open>Parts\<close> and
  three of four columns; a third file has other columns.
\<close>

definition ex_books :: "sheet_rec list" where
  "ex_books =
     [\<lparr>r_file = cps ''a.xlsx'', r_sheet = cps ''Parts'',
        r_norm_cols = [cps ''sku'', cps ''title'', cps ''price'']\<rparr>,
      \<lparr>r_file = cps ''b.xlsx'', r_sheet = cps ''Parts'',
        r_norm_cols = [cps ''sku'', cps ''title'', cps ''price'', cps ''brand'']\<rparr>,
      \<lparr>r_file = cps ''c.csv'', r_sheet = cps ''(csv)'',
        r_norm_cols = [cps ''make'', cps ''model'']\<rparr>]"

text \<open>
  Three columns of a sheet; profiling the second one raises. The columns are named by
  their position.
\<close>

definition ex_stats :: "pystr \<Rightarrow> col_stats" where
  "ex_stats name = \<lparr>s_column = name, s_norm_col = name, s_dtype = cps ''string'', s_missing_pct = 0,
     s_patterns = [], s_nuniq = 3, s_top5 = cps ''{}'', s_uniqueness = 100\<rparr>"

definition ex_attempt :: "nat \<Rightarrow> string + col_stats" where
  "ex_attempt col = (if col = 0 then Inr (ex_stats (cps ''sku''))
     else if col = 1 then Inl ''ValueError'' else Inr (ex_stats (cps ''title'')))"

definition ex_rec :: sheet_rec where
  "ex_rec = \<lparr>r_file = cps ''a.xlsx'', r_sheet = cps ''Parts'', r_norm_cols = [cps ''sku'', cps ''x'', cps ''title'']\<rparr>"

definition pstate0 :: "string pstate" where
  "pstate0 = \<lparr>deep_profiles = [], quality_issues = [], errors_log = []\<rparr>"

text \<open>A column of two distinct values and two missing cells.\<close>

definition ex_nulls :: "pystr option list" where
  "ex_nulls = [Some (cps ''a''), Some (cps ''b''), None, None]"

text \<open>A raw header with surrounding blanks, capitals and punctuation.\<close>

definition ex_header :: pystr where
  "ex_header = cps ''  Part-No. (OEM) ''"

text \<open>
  Sheets for the redundancy check: a sheet of 31 columns \<open>0\<close> to \<open>9\<close> and \<open>a\<close> to \<open>u\<close> and
  one of the first 30 of them; a sheet of 21 columns and one of the first 20; a sheet that
  repeats a header. No two of their names are alike enough to be merged.
\<close>

definition ex_cols :: "nat \<Rightarrow> pystr list" where
  "ex_cols n = map (\<lambda>c. [c]) (take n ([48..<58] @ [97..<123]))"

definition ex_wide31 :: sheet_rec where
  "ex_wide31 = \<lparr>r_file = cps ''a.xlsx'', r_sheet = cps ''Wide'', r_norm_cols = ex_cols 31\<rparr>"

definition ex_wide30 :: sheet_rec where
  "ex_wide30 = \<lparr>r_file = cps ''b.xlsx'', r_sheet = cps ''Wide'', r_norm_cols = ex_cols 30\<rparr>"

definition ex_wide21 :: sheet_rec where
  "ex_wide21 = \<lparr>r_file = cps ''c.xlsx'', r_sheet = cps ''Wide'', r_norm_cols = ex_cols 21\<rparr>"

definition ex_wide20 :: sheet_rec where
  "ex_wide20 = \<lparr>r_file = cps ''d.xlsx'', r_sheet = cps ''Wide'', r_norm_cols = ex_cols 20\<rparr>"

definition ex_twice :: sheet_rec where
  "ex_twice = \<lparr>r_file = cps ''e.xlsx'', r_sheet = cps ''S'', r_norm_cols = [cps ''sku'', cps ''sku'']\<rparr>"

definition ex_once :: sheet_rec where
  "ex_once = \<lparr>r_file = cps ''f.xlsx'', r_sheet = cps ''S'', r_norm_cols = [cps ''sku'']\<rparr>"

definition ex_no_merge :: "pystr \<Rightarrow> pystr \<Rightarrow> rat" where
  "ex_no_merge a b = (if a = b then 1 else 0)"

text \<open>Three scanned sheets, two of them with the same headers in another order and case.\<close>

definition ex_sheets :: "(pystr \<times> pystr \<times> pystr list) list" where
  "ex_sheets =
     [(cps ''a.xlsx'', cps ''Parts'', [cps ''SKU'', cps ''Part No.'']),
      (cps ''b.xlsx'', cps ''Items'', [cps ''part_no'', cps '' sku '', cps ''sku'']),
      (cps ''c.csv'', cps ''(csv)'', [cps ''make'', cps ''model''])]"

definition ex_parts :: sheet_rec where
  "ex_parts = \<lparr>r_file = cps ''a.xlsx'', r_sheet = cps ''Parts'', r_norm_cols = [cps ''sku'', cps ''part_no'']\<rparr>"

definition ex_items :: sheet_rec where
  "ex_items = \<lparr>r_file = cps ''b.xlsx'', r_sheet = cps ''Items'',
     r_norm_cols = [cps ''part_no'', cps ''sku'', cps ''sku'']\<rparr>"

section \<open>Properties of the canonical identity merge\<close>

lemma distinct_dict_keys: "distinct (dict_keys xs)"
  by (simp add: dict_keys_def)

lemma set_dict_keys: "set (dict_keys xs) = set xs"
  by (simp add: dict_keys_def)

lemma merge_inner_dom: "dom (merge_inner ratio ki rest mg) \<subseteq> dom mg \<union> set rest"
proof (induction rest arbitrary: mg)
  case Nil
  show ?case by simp
next
  case (Cons kj rest)
  define mg' where "mg' = mg(kj \<mapsto> ki)"
  have "dom mg' = insert kj (dom mg)" by (simp add: mg'_def)
  with Cons.IH [of mg'] have "dom (merge_inner ratio ki rest mg') \<subseteq> dom mg \<union> set (kj # rest)"
    by auto
  moreover from Cons.IH [of mg] have "dom (merge_inner ratio ki rest mg) \<subseteq> dom mg \<union> set (kj # rest)"
    by auto
  ultimately show ?case unfolding mg'_def by simp
qed

lemma ran_upd_subset: "ran (m(k \<mapsto> v)) \<subseteq> insert v (ran m)"
  by (auto simp: ran_def split: if_splits)

lemma merge_inner_ran: "ran (merge_inner ratio ki rest mg) \<subseteq> insert ki (ran mg)"
proof (induction rest arbitrary: mg)
  case Nil
  show ?case by auto
next
  case (Cons kj rest)
  define mg' where "mg' = mg(kj \<mapsto> ki)"
  have "ran mg' \<subseteq> insert ki (ran mg)" unfolding mg'_def by (rule ran_upd_subset)
  with Cons.IH [of mg'] have "ran (merge_inner ratio ki rest mg') \<subseteq> insert ki (ran mg)"
    by blast
  with Cons.IH [of mg] show ?case unfolding mg'_def by simp
qed

lemma merge_outer_no_chain:
  "distinct ks \<Longrightarrow> ran mg \<inter> set ks = {} \<Longrightarrow> ran mg \<inter> dom mg = {}
     \<Longrightarrow> ran (merge_outer ratio ks mg) \<inter> dom (merge_outer ratio ks mg) = {}"
proof (induction ks arbitrary: mg)
  case Nil
  then show ?case by simp
next
  case (Cons ki rest)
  show ?case
  proof (cases "mg ki \<noteq> None")
    case True
    with Cons show ?thesis by auto
  next
    case False
    let ?mg = "merge_inner ratio ki rest mg"
    have d: "dom ?mg \<subseteq> dom mg \<union> set rest" by (rule merge_inner_dom)
    have r: "ran ?mg \<subseteq> insert ki (ran mg)" by (rule merge_inner_ran)
    from False have ki: "ki \<notin> dom mg" by auto
    from Cons.prems have p: "ki \<notin> set rest" "ran mg \<inter> set rest = {}" "ki \<notin> ran mg"
      "ran mg \<inter> dom mg = {}" by auto
    have 1: "ran ?mg \<inter> set rest = {}" using r p by blast
    have 2: "ran ?mg \<inter> dom ?mg = {}" using r d ki p by blast
    from Cons.IH [OF _ 1 2] Cons.prems(1) False show ?thesis by simp
  qed
qed

lemma merged_no_chain:
  assumes "distinct keys" and "merged ratio keys a = Some c"
  shows "merged ratio keys c = None"
proof -
  have "ran (merged ratio keys) \<inter> dom (merged ratio keys) = {}"
    unfolding merged_def using assms(1) by (intro merge_outer_no_chain) auto
  moreover have "c \<in> ran (merged ratio keys)" using assms(2) by (auto simp: ran_def)
  ultimately show ?thesis by auto
qed

lemma canon_idem:
  assumes "distinct keys"
  shows "canon (merged ratio keys) (canon (merged ratio keys) x) = canon (merged ratio keys) x"
proof (cases "merged ratio keys x")
  case None
  then show ?thesis by (simp add: canon_def)
next
  case (Some c)
  with merged_no_chain [OF assms Some] show ?thesis by (simp add: canon_def)
qed

lemma distinct_norm_keys: "distinct (norm_keys phase1)" "distinct (norm_keys_v1 phase1)"
  by (simp_all add: norm_keys_def norm_keys_v1_def distinct_dict_keys)

text \<open>
  C10. The merge map has no chains: a name recorded as the canonical of an alias is
  never itself an alias, and resolving a name through the map twice gives what
  resolving it once gives. Both hold for the key list of v3 and for that of the first
  analyzer, whatever the similarity ratio is.
\<close>

theorem merged_no_chains:
  "(\<forall>a c. merged ratio (norm_keys phase1) a = Some c \<longrightarrow> merged ratio (norm_keys phase1) c = None) \<and>
   (\<forall>x. canon (merged ratio (norm_keys phase1)) (canon (merged ratio (norm_keys phase1)) x)
          = canon (merged ratio (norm_keys phase1)) x) \<and>
   (\<forall>a c. merged ratio (norm_keys_v1 phase1) a = Some c \<longrightarrow> merged ratio (norm_keys_v1 phase1) c = None) \<and>
   (\<forall>x. canon (merged ratio (norm_keys_v1 phase1)) (canon (merged ratio (norm_keys_v1 phase1)) x)
          = canon (merged ratio (norm_keys_v1 phase1)) x)"
  using merged_no_chain [OF distinct_norm_keys(1)] merged_no_chain [OF distinct_norm_keys(2)]
    canon_idem [OF distinct_norm_keys(1)] canon_idem [OF distinct_norm_keys(2)]
  by blast

lemma ex_norm_keys: "norm_keys ex_phase1 = [cps ''part_number'', cps ''sku'', cps ''part_numbers'']"
  by (simp add: norm_keys_def ex_phase1_def dict_keys_def cps_def)

lemma ex_merged_alias: "merged ex_ratio (norm_keys ex_phase1) (cps ''part_numbers'') = Some (cps ''part_number'')"
  by (simp add: ex_norm_keys merged_def) (simp add: ex_ratio_def COL_SIM_THRESH_def cps_def)

theorem merged_no_chains_witness:
  "merged ex_ratio (norm_keys ex_phase1) (cps ''part_numbers'') = Some (cps ''part_number'')
   \<and> merged ex_ratio (norm_keys ex_phase1) (cps ''part_number'') = None
   \<and> canon (merged ex_ratio (norm_keys ex_phase1)) (cps ''part_numbers'') = cps ''part_number''
   \<and> canon (merged ex_ratio (norm_keys ex_phase1)) (cps ''part_number'') = cps ''part_number''"
proof -
  from merged_no_chains [of ex_ratio ex_phase1, THEN conjunct1, rule_format, OF ex_merged_alias]
  have "merged ex_ratio (norm_keys ex_phase1) (cps ''part_number'') = None" .
  with ex_merged_alias show ?thesis by (simp add: canon_def)
qed

section \<open>Properties of the key relationship detection\<close>



lemma fk_pairs_set:
  "set (fk_pairs m) =
     {(nc, h, l) | nc h l locs. (nc, locs) \<in> set m \<and> 2 \<le> length locs
        \<and> h \<in> set (high locs) \<and> l \<in> set (low locs)}"
proof (induction m rule: fk_pairs.induct)
  case 1
  show ?case by simp
next
  case (2 nc locs rest)
  have e: "set (fk_edges nc (high locs) (low locs)) =
           {(nc, h, l) | h l. h \<in> set (high locs) \<and> l \<in> set (low locs)}"
    by (auto simp: fk_edges_def)
  show ?case
  proof (cases "length locs < 2")
    case True
    with 2 show ?thesis by auto
  next
    case False
    have "set ((if high locs \<noteq> [] \<and> low locs \<noteq> [] then fk_edges nc (high locs) (low locs) else []))
          = {(nc, h, l) | h l. h \<in> set (high locs) \<and> l \<in> set (low locs)}"
      using e by auto
    with False 2 show ?thesis by (auto simp: not_less)
  qed
qed


lemma clean_edges_set:
  "set (clean_edges nc hs ls) = {clean_edge nc h l | h l. h \<in> set (take 3 hs) \<and> l \<in> set (take 3 ls)}"
  by (auto simp: clean_edges_def simp del: split_paired_Ex)

lemma clean_fk_pairs_mem:
  "e \<in> set (clean_fk_pairs m) \<longleftrightarrow>
     (\<exists>nc locs h l. (nc, locs) \<in> set m \<and> 2 \<le> card (files_set locs)
        \<and> h \<in> set (take 3 (high locs)) \<and> l \<in> set (take 3 (low locs)) \<and> e = clean_edge nc h l)"
proof -
  define P where "P = (\<lambda>x. 2 \<le> card (files_set (snd x)) \<and>
     (\<exists>h l. h \<in> set (take 3 (high (snd x))) \<and> l \<in> set (take 3 (low (snd x))) \<and> e = clean_edge (fst x) h l))"
  have one: "e \<in> set (if high locs \<noteq> [] \<and> low locs \<noteq> [] then clean_edges nc (high locs) (low locs) else [])
      \<longleftrightarrow> (\<exists>h l. h \<in> set (take 3 (high locs)) \<and> l \<in> set (take 3 (low locs)) \<and> e = clean_edge nc h l)"
    for nc locs
    by (auto simp: clean_edges_set simp del: split_paired_Ex)
  have "e \<in> set (clean_fk_pairs m) \<longleftrightarrow> (\<exists>x \<in> set m. P x)"
  proof (induction m rule: clean_fk_pairs.induct)
    case 1
    show ?case by simp
  next
    case (2 nc locs rest)
    show ?case
    proof (cases "card (files_set locs) < 2")
      case True
      with 2 show ?thesis by (simp add: P_def)
    next
      case False
      with 2 one[of locs nc] show ?thesis by (simp add: P_def not_less)
    qed
  qed
  also have "\<dots> \<longleftrightarrow> (\<exists>nc locs h l. (nc, locs) \<in> set m \<and> 2 \<le> card (files_set locs)
        \<and> h \<in> set (take 3 (high locs)) \<and> l \<in> set (take 3 (low locs)) \<and> e = clean_edge nc h l)"
    unfolding P_def by (simp del: split_paired_Ex) (metis prod.collapse fst_conv snd_conv)
  finally show ?thesis .
qed

lemma dl_append_keys:
  "map fst (dl_append k v m) = (if k \<in> set (map fst m) then map fst m else map fst m @ [k])"
proof (induction m)
  case Nil
  show ?case by simp
next
  case (Cons a m)
  obtain k' vs where a: "a = (k', vs)" by (cases a)
  show ?case
  proof (cases "k = k'")
    case True
    then show ?thesis by (simp add: a)
  next
    case False
    with Cons show ?thesis by (simp add: a)
  qed
qed

lemma dl_append_distinct: "distinct (map fst m) \<Longrightarrow> distinct (map fst (dl_append k v m))"
  by (simp add: dl_append_keys)

lemma dl_append_map_of:
  "map_of (dl_append k v m) =
     (map_of m)(k \<mapsto> (case map_of m k of None \<Rightarrow> [v] | Some vs \<Rightarrow> vs @ [v]))"
  by (induction m) (auto simp: fun_eq_iff)

lemma col_sheet_map_from_collect:
  "col_sheet_map_from m ps = collect (\<lambda>p. p_norm_col p \<noteq> []) m ps"
  by (induction ps arbitrary: m) (simp_all add: collect_def loc_of_def)

lemma clean_col_sheet_map_from_collect:
  "clean_col_sheet_map_from m ps = collect (\<lambda>p. \<not> startswith (p_norm_col p) (cps ''unnamed_'')) m ps"
  by (induction ps arbitrary: m) (simp_all add: collect_def loc_of_def)

lemma collect_distinct: "distinct (map fst m) \<Longrightarrow> distinct (map fst (collect keep m ps))"
  unfolding collect_def by (induction ps arbitrary: m) (simp_all add: dl_append_distinct)

lemma collect_map_of:
  "map_of (collect keep m ps) nc =
     (case map_of m nc of
        None \<Rightarrow> (if locs_of nc (filter keep ps) = [] then None else Some (locs_of nc (filter keep ps)))
      | Some vs \<Rightarrow> Some (vs @ locs_of nc (filter keep ps)))"
proof (induction ps arbitrary: m)
  case Nil
  show ?case by (simp add: collect_def locs_of_def split: option.splits)
next
  case (Cons p ps)
  have step: "collect keep m (p # ps)
      = collect keep (if keep p then dl_append (p_norm_col p) (loc_of p) m else m) ps"
    by (simp add: collect_def)
  show ?case
  proof (cases "keep p")
    case False
    then have f: "filter keep (p # ps) = filter keep ps"
      and c: "collect keep m (p # ps) = collect keep m ps"
      by (simp_all add: step)
    show ?thesis unfolding f c by (rule Cons)
  next
    case True
    show ?thesis
      unfolding step using True
      by (simp add: Cons dl_append_map_of locs_of_def split: option.splits)
  qed
qed

lemma collect_mem:
  "(nc, locs) \<in> set (collect keep [] ps)
     \<longleftrightarrow> locs = locs_of nc (filter keep ps) \<and> locs \<noteq> []"
proof -
  have d: "distinct (map fst (collect keep [] ps))" by (rule collect_distinct) simp
  have "(nc, locs) \<in> set (collect keep [] ps) \<longleftrightarrow> map_of (collect keep [] ps) nc = Some locs"
    using d by simp
  then show ?thesis by (auto simp: collect_map_of)
qed

lemma locs_of_keep:
  "(\<And>p. p_norm_col p = nc \<Longrightarrow> keep p = K) \<Longrightarrow>
     locs_of nc (filter keep ps) = (if K then locs_of nc ps else [])"
  by (induction ps) (auto simp: locs_of_def)

lemma col_sheet_map_mem:
  "(nc, locs) \<in> set (col_sheet_map ps) \<longleftrightarrow> nc \<noteq> [] \<and> locs = locs_of nc ps \<and> locs \<noteq> []"
  unfolding col_sheet_map_def col_sheet_map_from_collect collect_mem
  using locs_of_keep [of nc "\<lambda>p. p_norm_col p \<noteq> []" "nc \<noteq> []" ps] by auto

lemma clean_col_sheet_map_mem:
  "(nc, locs) \<in> set (clean_col_sheet_map ps)
     \<longleftrightarrow> \<not> startswith nc (cps ''unnamed_'') \<and> locs = locs_of nc ps \<and> locs \<noteq> []"
  unfolding clean_col_sheet_map_def clean_col_sheet_map_from_collect collect_mem
  using locs_of_keep [of nc "\<lambda>p. \<not> startswith (p_norm_col p) (cps ''unnamed_'')"
     "\<not> startswith nc (cps ''unnamed_'')" ps] by auto

subsection \<open>Primary-key candidates\<close>

lemma ex_canon_alias:
  "canon (merged ex_ratio (norm_keys ex_phase1)) (cps ''part_numbers'') = cps ''part_number''
   \<and> canon (merged ex_ratio (norm_keys ex_phase1)) (cps ''part_number'') = cps ''part_number''"
  by (simp add: ex_norm_keys merged_def canon_def) (simp add: ex_ratio_def COL_SIM_THRESH_def cps_def)

lemma high_mem: "l \<in> set (high locs) \<longleftrightarrow> l \<in> set locs \<and> loc_uniq l > 70"
  by (simp add: high_def)

lemma low_mem: "l \<in> set (low locs) \<longleftrightarrow> l \<in> set locs \<and> loc_uniq l \<le> 70"
  by (simp add: low_def)





subsection \<open>Foreign-key candidates\<close>

lemma two_locs: "h \<in> set locs \<Longrightarrow> l \<in> set locs \<Longrightarrow> h \<noteq> l \<Longrightarrow> 2 \<le> length (locs :: loc list)"
proof -
  assume a: "h \<in> set locs" "l \<in> set locs" "h \<noteq> l"
  then have "card {h, l} \<le> card (set locs)" by (intro card_mono) auto
  also have "\<dots> \<le> length locs" by (rule card_length)
  finally show ?thesis using a(3) by simp
qed

lemma ex_four_high_locs_of: "locs_of (cps ''sku'') ex_four_high = ex_four_high_locs"
  by (simp add: locs_of_def ex_four_high_def ex_four_high_locs_def loc_of_def cps_def)

lemma ex_four_high_clean_map: "clean_col_sheet_map ex_four_high = [(cps ''sku'', ex_four_high_locs)]"
  by (simp add: clean_col_sheet_map_def ex_four_high_def ex_four_high_locs_def cps_def startswith_def)

text \<open>
  C6 (as amended). Both scripts key the columns by their normalized name.
  \<open>phased_analyzer_v3.py\<close> emits an edge for a name and two locations exactly when
  the name is not empty, the first location has uniqueness above 70 and the second at
  most 70: every pair, nothing cut. \<open>clean_report.py\<close> emits exactly the edges of
  one of the first three high locations and one of the first three low locations of a
  name that does not start with \<open>unnamed_\<close> and whose locations lie in at least two
  distinct files.
\<close>

theorem fk_pairs_complete:
  "((nc, h, l) \<in> set (fk_pairs (col_sheet_map ps))
      \<longleftrightarrow> nc \<noteq> [] \<and> h \<in> set (locs_of nc ps) \<and> loc_uniq h > 70
          \<and> l \<in> set (locs_of nc ps) \<and> loc_uniq l \<le> 70)
   \<and> (e \<in> set (clean_fk_pairs (clean_col_sheet_map ps))
      \<longleftrightarrow> (\<exists>nc h l. \<not> startswith nc (cps ''unnamed_'') \<and> 2 \<le> card (files_set (locs_of nc ps))
            \<and> h \<in> set (take 3 (high (locs_of nc ps))) \<and> l \<in> set (take 3 (low (locs_of nc ps)))
            \<and> e = clean_edge nc h l))"
proof
  have "(nc, h, l) \<in> set (fk_pairs (col_sheet_map ps))
     \<longleftrightarrow> (\<exists>locs. (nc, locs) \<in> set (col_sheet_map ps) \<and> 2 \<le> length locs
            \<and> h \<in> set (high locs) \<and> l \<in> set (low locs))"
    unfolding fk_pairs_set by blast
  also have "\<dots> \<longleftrightarrow> nc \<noteq> [] \<and> 2 \<le> length (locs_of nc ps)
       \<and> h \<in> set (high (locs_of nc ps)) \<and> l \<in> set (low (locs_of nc ps))"
    unfolding col_sheet_map_mem by (auto simp: high_def)
  also have "\<dots> \<longleftrightarrow> nc \<noteq> [] \<and> h \<in> set (locs_of nc ps) \<and> loc_uniq h > 70
          \<and> l \<in> set (locs_of nc ps) \<and> loc_uniq l \<le> 70"
  proof -
    have "h \<noteq> l" if "loc_uniq h > 70" "loc_uniq l \<le> 70"
      using that by auto
    then show ?thesis
      unfolding high_mem low_mem using two_locs [of h "locs_of nc ps" l] by blast
  qed
  finally show "(nc, h, l) \<in> set (fk_pairs (col_sheet_map ps))
      \<longleftrightarrow> nc \<noteq> [] \<and> h \<in> set (locs_of nc ps) \<and> loc_uniq h > 70
          \<and> l \<in> set (locs_of nc ps) \<and> loc_uniq l \<le> 70" .
next
  have "e \<in> set (clean_fk_pairs (clean_col_sheet_map ps))
     \<longleftrightarrow> (\<exists>nc locs h l. (nc, locs) \<in> set (clean_col_sheet_map ps) \<and> 2 \<le> card (files_set locs)
        \<and> h \<in> set (take 3 (high locs)) \<and> l \<in> set (take 3 (low locs)) \<and> e = clean_edge nc h l)"
    by (rule clean_fk_pairs_mem)
  also have "\<dots> \<longleftrightarrow> (\<exists>nc h l. \<not> startswith nc (cps ''unnamed_'') \<and> 2 \<le> card (files_set (locs_of nc ps))
            \<and> h \<in> set (take 3 (high (locs_of nc ps))) \<and> l \<in> set (take 3 (low (locs_of nc ps)))
            \<and> e = clean_edge nc h l)"
    unfolding clean_col_sheet_map_mem
    by (simp del: split_paired_Ex) (metis empty_iff empty_set high_def filter.simps(1) take_Nil)
  finally show "e \<in> set (clean_fk_pairs (clean_col_sheet_map ps))
      \<longleftrightarrow> (\<exists>nc h l. \<not> startswith nc (cps ''unnamed_'') \<and> 2 \<le> card (files_set (locs_of nc ps))
            \<and> h \<in> set (take 3 (high (locs_of nc ps))) \<and> l \<in> set (take 3 (low (locs_of nc ps)))
            \<and> e = clean_edge nc h l)" .
qed

theorem fk_pairs_complete_witness:
  "(cps ''sku'', (cps ''f4.csv'', cps ''(csv)'', 100), (cps ''f5.csv'', cps ''(csv)'', 10))
        \<in> set (fk_pairs (col_sheet_map ex_four_high))
   \<and> (cps ''sku'', (cps ''f5.csv'', cps ''(csv)'', 10), (cps ''f4.csv'', cps ''(csv)'', 100))
        \<notin> set (fk_pairs (col_sheet_map ex_four_high))
   \<and> clean_edge (cps ''sku'') (cps ''f3.csv'', cps ''(csv)'', 100) (cps ''f5.csv'', cps ''(csv)'', 10)
        \<in> set (clean_fk_pairs (clean_col_sheet_map ex_four_high))"
proof -
  have a: "(cps ''sku'', (cps ''f4.csv'', cps ''(csv)'', 100), (cps ''f5.csv'', cps ''(csv)'', 10))
        \<in> set (fk_pairs (col_sheet_map ex_four_high))"
    unfolding fk_pairs_complete [of "cps ''sku''" "(cps ''f4.csv'', cps ''(csv)'', 100)"
        "(cps ''f5.csv'', cps ''(csv)'', 10)" ex_four_high undefined, THEN conjunct1]
      ex_four_high_locs_of
    by (simp add: ex_four_high_locs_def loc_uniq_def cps_def)
  have b: "(cps ''sku'', (cps ''f5.csv'', cps ''(csv)'', 10), (cps ''f4.csv'', cps ''(csv)'', 100))
        \<notin> set (fk_pairs (col_sheet_map ex_four_high))"
    unfolding fk_pairs_complete [of "cps ''sku''" "(cps ''f5.csv'', cps ''(csv)'', 10)"
        "(cps ''f4.csv'', cps ''(csv)'', 100)" ex_four_high undefined, THEN conjunct1]
    by (simp add: loc_uniq_def)
  have c: "clean_edge (cps ''sku'') (cps ''f3.csv'', cps ''(csv)'', 100) (cps ''f5.csv'', cps ''(csv)'', 10)
        \<in> set (clean_fk_pairs (clean_col_sheet_map ex_four_high))"
    unfolding fk_pairs_complete [of undefined undefined undefined ex_four_high
        "clean_edge (cps ''sku'') (cps ''f3.csv'', cps ''(csv)'', 100) (cps ''f5.csv'', cps ''(csv)'', 10)",
        THEN conjunct2]
  proof (intro exI conjI)
    show "clean_edge (cps ''sku'') (cps ''f3.csv'', cps ''(csv)'', 100) (cps ''f5.csv'', cps ''(csv)'', 10)
        = clean_edge (cps ''sku'') (cps ''f3.csv'', cps ''(csv)'', 100) (cps ''f5.csv'', cps ''(csv)'', 10)" ..
    show "\<not> startswith (cps ''sku'') (cps ''unnamed_'')" by (simp add: startswith_def cps_def)
    show "2 \<le> card (files_set (locs_of (cps ''sku'') ex_four_high))"
      unfolding ex_four_high_locs_of
      by (simp add: ex_four_high_locs_def files_set_def loc_file_def cps_def)
    show "(cps ''f3.csv'', cps ''(csv)'', 100) \<in> set (take 3 (high (locs_of (cps ''sku'') ex_four_high)))"
      unfolding ex_four_high_locs_of by (simp add: ex_four_high_locs_def high_def loc_uniq_def)
    show "(cps ''f5.csv'', cps ''(csv)'', 10) \<in> set (take 3 (low (locs_of (cps ''sku'') ex_four_high)))"
      unfolding ex_four_high_locs_of by (simp add: ex_four_high_locs_def low_def loc_uniq_def)
  qed
  from a b c show ?thesis by blast
qed

text \<open>
  C6 as stated fails. In \<open>clean_report.py\<close>, with four high locations and one low
  location the pair of the fourth high location and the low one gets no edge: three
  edges instead of four. The spellings \<open>part_number\<close> (high) and
  \<open>part_numbers\<close> (low) are one canonical identity and neither script emits an
  edge. A high and a low location in two sheets of one file, or under the name
  \<open>unnamed_1\<close>, get an edge from v3 and none from \<open>clean_report.py\<close>; under an
  empty normalized name they get none from v3.
\<close>

theorem fk_truncated_counterexample:
  "clean_col_sheet_map ex_four_high = [(cps ''sku'', ex_four_high_locs)]
   \<and> 2 \<le> card (files_set ex_four_high_locs)
   \<and> (cps ''f4.csv'', cps ''(csv)'', 100) \<in> set (high ex_four_high_locs)
   \<and> (cps ''f5.csv'', cps ''(csv)'', 10) \<in> set (low ex_four_high_locs)
   \<and> clean_edge (cps ''sku'') (cps ''f4.csv'', cps ''(csv)'', 100) (cps ''f5.csv'', cps ''(csv)'', 10)
        \<notin> set (clean_fk_pairs (clean_col_sheet_map ex_four_high))
   \<and> length (clean_fk_pairs (clean_col_sheet_map ex_four_high)) = 3
   \<and> canon (merged ex_ratio (norm_keys ex_phase1)) (cps ''part_numbers'') = cps ''part_number''
   \<and> canon (merged ex_ratio (norm_keys ex_phase1)) (cps ''part_number'') = cps ''part_number''
   \<and> fk_pairs (col_sheet_map ex_alias_fk) = []
   \<and> clean_fk_pairs (clean_col_sheet_map ex_alias_fk) = []
   \<and> fk_pairs (col_sheet_map ex_same_file_fk) =
       [(cps ''sku'', (cps ''a.xlsx'', cps ''S1'', 100), (cps ''a.xlsx'', cps ''S2'', 10))]
   \<and> clean_fk_pairs (clean_col_sheet_map ex_same_file_fk) = []
   \<and> fk_pairs (col_sheet_map ex_unnamed_fk) =
       [(cps ''unnamed_1'', (cps ''f1.csv'', cps ''(csv)'', 100), (cps ''f2.csv'', cps ''(csv)'', 10))]
   \<and> clean_fk_pairs (clean_col_sheet_map ex_unnamed_fk) = []
   \<and> fk_pairs (col_sheet_map ex_empty_fk) = []"
proof -
  have t: "clean_col_sheet_map ex_four_high = [(cps ''sku'', ex_four_high_locs)]
   \<and> 2 \<le> card (files_set ex_four_high_locs)
   \<and> (cps ''f4.csv'', cps ''(csv)'', 100) \<in> set (high ex_four_high_locs)
   \<and> (cps ''f5.csv'', cps ''(csv)'', 10) \<in> set (low ex_four_high_locs)
   \<and> clean_edge (cps ''sku'') (cps ''f4.csv'', cps ''(csv)'', 100) (cps ''f5.csv'', cps ''(csv)'', 10)
        \<notin> set (clean_fk_pairs (clean_col_sheet_map ex_four_high))
   \<and> length (clean_fk_pairs (clean_col_sheet_map ex_four_high)) = 3"
    by (simp add: ex_four_high_clean_map)
       (simp add: ex_four_high_locs_def files_set_def loc_file_def high_def low_def loc_uniq_def
          clean_edges_def clean_edge_def loc_label_def loc_sheet_def cps_def)
  have al: "fk_pairs (col_sheet_map ex_alias_fk) = []"
    "clean_fk_pairs (clean_col_sheet_map ex_alias_fk) = []"
    by (simp_all add: col_sheet_map_def clean_col_sheet_map_def ex_alias_fk_def startswith_def cps_def
          files_set_def loc_file_def)
  have sf: "fk_pairs (col_sheet_map ex_same_file_fk) =
       [(cps ''sku'', (cps ''a.xlsx'', cps ''S1'', 100), (cps ''a.xlsx'', cps ''S2'', 10))]"
    "clean_fk_pairs (clean_col_sheet_map ex_same_file_fk) = []"
    by (simp_all add: col_sheet_map_def clean_col_sheet_map_def ex_same_file_fk_def startswith_def cps_def
          files_set_def loc_file_def high_def low_def loc_uniq_def fk_edges_def)
  have un: "fk_pairs (col_sheet_map ex_unnamed_fk) =
       [(cps ''unnamed_1'', (cps ''f1.csv'', cps ''(csv)'', 100), (cps ''f2.csv'', cps ''(csv)'', 10))]"
    "clean_fk_pairs (clean_col_sheet_map ex_unnamed_fk) = []"
    by (simp_all add: col_sheet_map_def clean_col_sheet_map_def ex_unnamed_fk_def startswith_def cps_def
          high_def low_def loc_uniq_def fk_edges_def)
  have em: "fk_pairs (col_sheet_map ex_empty_fk) = []"
    by (simp add: col_sheet_map_def ex_empty_fk_def)
  from t al sf un em ex_canon_alias show ?thesis by blast
qed

section \<open>Properties of the sheet clustering\<close>

lemma dl_append_mset:
  "mset (concat (map snd (dl_append k v m))) = add_mset v (mset (concat (map snd m)))"
  by (induction m) auto

lemma groups_fold_mset:
  "mset (concat (map snd (foldl (\<lambda>m rec. dl_append (r_sheet rec) (key_of rec) m) m recs)))
     = mset (concat (map snd m)) + mset (map key_of recs)"
  by (induction recs arbitrary: m) (simp_all add: dl_append_mset)

lemma sheet_name_groups_mset:
  "mset (concat (map snd (sheet_name_groups phase1))) = mset (map key_of phase1)"
  by (simp add: sheet_name_groups_def groups_fold_mset)

lemma dict_set_keys: "fst ` set (dict_set k v m) = insert k (fst ` set m)"
proof (induction m)
  case Nil
  show ?case by simp
next
  case (Cons a m)
  obtain k' v' where a: "a = (k', v')" by (cases a)
  show ?case
  proof (cases "k = k'")
    case True
    then show ?thesis by (simp add: a)
  next
    case False
    with Cons show ?thesis by (simp add: a insert_commute)
  qed
qed

lemma colsets_fold_keys:
  "fst ` set (foldl (\<lambda>m rec. dict_set (key_of rec) (f rec) m) m recs)
     = fst ` set m \<union> key_of ` set recs"
  by (induction recs arbitrary: m) (simp_all add: dict_set_keys)

lemma sheet_colsets_keys:
  "set (map fst (sheet_colsets mg phase1)) = set (map key_of phase1)"
  "set (map fst (sheet_colsets_v1 mg phase1)) = set (map key_of phase1)"
  by (simp_all add: sheet_colsets_def sheet_colsets_v1_def colsets_fold_keys)

lemma assign_all_dom: "dom (assign_all asg g c) = dom asg \<union> set g"
  unfolding assign_all_def by (induction g arbitrary: asg) auto

definition part_inv :: "cstate \<Rightarrow> bool" where
  "part_inv st \<longleftrightarrow> distinct (all_members st) \<and> set (all_members st) = dom (assigned st)"

lemma part_inv_add:
  assumes "part_inv st" and "distinct ms" and "set ms \<inter> dom (assigned st) = {}"
    and "dom asg = dom (assigned st) \<union> set ms"
  shows "part_inv \<lparr>assigned = asg, clusters = clusters st @ [(c, \<lparr>members = ms, union_cols = u, via = v\<rparr>)], cid = c\<rparr>"
  using assms by (auto simp: part_inv_def all_members_def)

lemma all_members_add:
  "all_members \<lparr>assigned = asg, clusters = clusters st @ [(c, \<lparr>members = ms, union_cols = u, via = v\<rparr>)], cid = c'\<rparr>
     = all_members st @ ms"
  by (simp add: all_members_def)

lemma name_pass_inv:
  "distinct (concat (map snd gs)) \<Longrightarrow> part_inv st
   \<Longrightarrow> dom (assigned st) \<inter> set (concat (map snd gs)) = {}
   \<Longrightarrow> part_inv (name_pass cs gs st)
       \<and> dom (assigned (name_pass cs gs st)) \<subseteq> dom (assigned st) \<union> set (concat (map snd gs))"
proof (induction cs gs st rule: name_pass.induct)
  case (1 cs st)
  then show ?case by simp
next
  case (2 cs sname mems rest st)
  let ?rep = "cs_get cs (hd mems)"
  let ?grp = "filter (\<lambda>m. jaccard ?rep (cs_get cs m) \<ge> 30 / 100 \<or> cs_get cs m = ?rep) mems"
  let ?st = "\<lparr>assigned = assign_all (assigned st) ?grp (cid st + 1),
                  clusters = clusters st @
                    [(cid st + 1, \<lparr>members = ?grp, union_cols = \<Union> (set (map (cs_get cs) ?grp)),
                                   via = SheetName\<rparr>)],
                  cid = cid st + 1\<rparr>"
  from "2.prems" have dr: "distinct (concat (map snd rest))" and dm: "distinct mems"
    and mr: "set mems \<inter> set (concat (map snd rest)) = {}"
    and ar: "dom (assigned st) \<inter> set (concat (map snd rest)) = {}"
    and am: "dom (assigned st) \<inter> set mems = {}"
    by auto
  have skip: "part_inv (name_pass cs rest st)
       \<and> dom (assigned (name_pass cs rest st)) \<subseteq> dom (assigned st) \<union> set (concat (map snd ((sname, mems) # rest)))"
    if "name_pass cs ((sname, mems) # rest) st = name_pass cs rest st"
       and ih: "distinct (concat (map snd rest)) \<Longrightarrow> part_inv st
         \<Longrightarrow> dom (assigned st) \<inter> set (concat (map snd rest)) = {}
         \<Longrightarrow> part_inv (name_pass cs rest st)
           \<and> dom (assigned (name_pass cs rest st)) \<subseteq> dom (assigned st) \<union> set (concat (map snd rest))"
    using ih [OF dr "2.prems"(2) ar] by auto
  show ?case
  proof (cases "length mems < 2")
    case True
    with "2.IH"(1) [OF True dr "2.prems"(2) ar] show ?thesis by auto
  next
    case l: False
    show ?thesis
    proof (cases "?rep = {}")
      case True
      with "2.IH"(2) [OF l refl True dr "2.prems"(2) ar] l show ?thesis by auto
    next
      case r: False
      show ?thesis
      proof (cases "length ?grp \<ge> 2")
        case False
        with "2.IH"(4) [OF l refl r refl False dr "2.prems"(2) ar] l r show ?thesis
          by (auto simp: Let_def)
      next
        case g: True
        have dg: "distinct ?grp" using dm by simp
        have sg: "set ?grp \<subseteq> set mems" by auto
        have d: "dom (assigned ?st) = dom (assigned st) \<union> set ?grp"
          by (simp add: assign_all_dom)
        have inv: "part_inv ?st"
          by (rule part_inv_add [OF "2.prems"(2) dg]) (use am sg in \<open>auto simp: assign_all_dom\<close>)
        have ar': "dom (assigned ?st) \<inter> set (concat (map snd rest)) = {}"
          unfolding d using ar mr sg by blast
        from "2.IH"(3) [OF l refl r refl g dr inv ar']
        have "part_inv (name_pass cs rest ?st)"
          and "dom (assigned (name_pass cs rest ?st)) \<subseteq> dom (assigned ?st) \<union> set (concat (map snd rest))"
          by auto
        moreover have "name_pass cs ((sname, mems) # rest) st = name_pass cs rest ?st"
          using l r g by (simp add: Let_def)
        ultimately show ?thesis unfolding d using sg by auto
      qed
    qed
  qed
qed

lemma grow_props:
  "grow cs rest c (ms, cc, asg) = (ms', cc', asg')
   \<Longrightarrow> \<exists>added. ms' = ms @ added \<and> distinct added \<and> set added \<inter> dom asg = {}
         \<and> set added \<subseteq> set rest \<and> dom asg' = dom asg \<union> set added"
proof (induction rest arbitrary: ms cc asg)
  case Nil
  then show ?case by simp
next
  case (Cons kj rest)
  show ?case
  proof (cases "asg kj \<noteq> None \<or> \<not> jaccard cc (cs_get cs kj) \<ge> CLUSTER_OVERLAP")
    case True
    then have "grow cs (kj # rest) c (ms, cc, asg) = grow cs rest c (ms, cc, asg)"
      by (cases "asg kj") simp_all
    with Cons.prems have "grow cs rest c (ms, cc, asg) = (ms', cc', asg')" by simp
    from Cons.IH [OF this] show ?thesis by auto
  next
    case False
    then have kj: "kj \<notin> dom asg" by auto
    define asg1 where "asg1 = asg(kj \<mapsto> c)"
    have d1: "dom asg1 = insert kj (dom asg)" by (simp add: asg1_def)
    from False have "grow cs (kj # rest) c (ms, cc, asg)
        = grow cs rest c (ms @ [kj], cc \<union> cs_get cs kj, asg1)"
      by (simp add: asg1_def)
    with Cons.prems
    have "grow cs rest c (ms @ [kj], cc \<union> cs_get cs kj, asg1) = (ms', cc', asg')"
      by simp
    from Cons.IH [OF this] obtain added where
      a: "ms' = (ms @ [kj]) @ added" "distinct added" "set added \<inter> dom asg1 = {}"
         "set added \<subseteq> set rest" "dom asg' = dom asg1 \<union> set added"
      by blast
    have "ms' = ms @ (kj # added)" using a(1) by simp
    moreover have "distinct (kj # added)" using a(2,3) d1 by auto
    moreover have "set (kj # added) \<inter> dom asg = {}" using a(3) d1 kj by auto
    moreover have "set (kj # added) \<subseteq> set (kj # rest)" using a(4) by auto
    moreover have "dom asg' = dom asg \<union> set (kj # added)" using a(5) d1 by auto
    ultimately show ?thesis by blast
  qed
qed

lemma jaccard_pass_inv:
  "part_inv st \<Longrightarrow> part_inv (jaccard_pass cs ks st)
     \<and> dom (assigned (jaccard_pass cs ks st)) = dom (assigned st) \<union> set ks"
proof (induction ks arbitrary: st)
  case Nil
  then show ?case by simp
next
  case (Cons k rest)
  show ?case
  proof (cases "assigned st k \<noteq> None")
    case True
    with Cons.IH [OF Cons.prems] show ?thesis by auto
  next
    case False
    then have k: "k \<notin> dom (assigned st)" by auto
    define asg0 where "asg0 = (assigned st)(k \<mapsto> cid st + 1)"
    have d0: "dom asg0 = insert k (dom (assigned st))" by (simp add: asg0_def)
    obtain ms ccols asg where g: "grow cs rest (cid st + 1) ([k], cs_get cs k, asg0) = (ms, ccols, asg)"
      by (cases "grow cs rest (cid st + 1) ([k], cs_get cs k, asg0)") auto
    let ?st = "\<lparr>assigned = asg, clusters = clusters st @
               [(cid st + 1, \<lparr>members = ms, union_cols = ccols, via = Jaccard\<rparr>)],
             cid = cid st + 1\<rparr>"
    from grow_props [OF g] obtain added where
      a: "ms = [k] @ added" "distinct added" "set added \<inter> dom asg0 = {}"
         "set added \<subseteq> set rest" "dom asg = dom asg0 \<union> set added"
      by blast
    have dms: "distinct ms" using a(1,2,3) d0 by auto
    have disj: "set ms \<inter> dom (assigned st) = {}" using a(1,3) d0 k by auto
    have dom: "dom asg = dom (assigned st) \<union> set ms" using a(1,5) d0 by auto
    have inv: "part_inv ?st" by (rule part_inv_add [OF Cons.prems dms disj dom])
    have step: "jaccard_pass cs (k # rest) st = jaccard_pass cs rest ?st"
      using False g by (simp add: asg0_def)
    from Cons.IH [OF inv]
    have "part_inv (jaccard_pass cs rest ?st)"
      and "dom (assigned (jaccard_pass cs rest ?st)) = dom asg \<union> set rest" by auto
    then show ?thesis unfolding step dom using a(1,4) by auto
  qed
qed

lemma part_inv0: "part_inv cstate0"
  by (simp add: part_inv_def cstate0_def all_members_def)

lemma cluster_sheets_partition:
  assumes "distinct (map key_of phase1)"
  shows "distinct (all_members (cluster_sheets mg phase1))"
    and "set (all_members (cluster_sheets mg phase1)) = set (map key_of phase1)"
proof -
  define cs where "cs = sheet_colsets mg phase1"
  define st where "st = name_pass cs (sheet_name_groups phase1) cstate0"
  define remaining where "remaining = filter (\<lambda>k. assigned st k = None) (map fst cs)"
  define K where "K = set (map key_of phase1)"
  have res: "cluster_sheets mg phase1 = jaccard_pass cs remaining st"
    by (simp add: cluster_sheets_def Let_def cs_def st_def remaining_def)
  have dg: "distinct (concat (map snd (sheet_name_groups phase1)))"
    using mset_eq_imp_distinct_iff [OF sheet_name_groups_mset [of phase1]] assms by simp
  have sg: "set (concat (map snd (sheet_name_groups phase1))) = K"
    unfolding K_def by (rule mset_eq_setD [OF sheet_name_groups_mset])
  have e: "dom (assigned cstate0) \<inter> set (concat (map snd (sheet_name_groups phase1))) = {}"
    by (simp add: cstate0_def)
  have d0: "dom (assigned cstate0) = {}" by (simp add: cstate0_def)
  from name_pass_inv [OF dg part_inv0 e, of cs]
  have inv: "part_inv st" and sub: "dom (assigned st) \<subseteq> K"
    unfolding st_def sg d0 by simp_all
  have keys: "set (map fst cs) = K"
    unfolding cs_def K_def by (rule sheet_colsets_keys(1))
  have rem: "set remaining = K - dom (assigned st)"
    unfolding remaining_def set_filter keys by (auto simp: domIff)
  from jaccard_pass_inv [OF inv, of cs remaining]
  have fin: "part_inv (jaccard_pass cs remaining st)"
    and d: "dom (assigned (jaccard_pass cs remaining st)) = dom (assigned st) \<union> set remaining"
    by simp_all
  from fin show "distinct (all_members (cluster_sheets mg phase1))"
    by (simp add: res part_inv_def)
  from fin have "set (all_members (cluster_sheets mg phase1)) = dom (assigned st) \<union> set remaining"
    by (simp add: res part_inv_def d)
  also have "\<dots> = K" unfolding rem using sub by blast
  finally show "set (all_members (cluster_sheets mg phase1)) = set (map key_of phase1)"
    by (simp add: K_def)
qed

lemma cluster_sheets_v1_partition:
  "distinct (all_members (cluster_sheets_v1 mg phase1))"
  "set (all_members (cluster_sheets_v1 mg phase1)) = set (map key_of phase1)"
proof -
  define cs where "cs = sheet_colsets_v1 mg phase1"
  have res: "cluster_sheets_v1 mg phase1 = jaccard_pass cs (map fst cs) cstate0"
    by (simp add: cluster_sheets_v1_def Let_def cs_def)
  have d0: "dom (assigned cstate0) = {}" by (simp add: cstate0_def)
  have keys: "set (map fst cs) = set (map key_of phase1)"
    unfolding cs_def by (rule sheet_colsets_keys(2))
  from jaccard_pass_inv [OF part_inv0, of cs "map fst cs"]
  have fin: "part_inv (jaccard_pass cs (map fst cs) cstate0)"
    and d: "dom (assigned (jaccard_pass cs (map fst cs) cstate0)) = set (map fst cs)"
    unfolding d0 by simp_all
  from fin show "distinct (all_members (cluster_sheets_v1 mg phase1))"
    by (simp add: res part_inv_def)
  from fin have "set (all_members (cluster_sheets_v1 mg phase1)) = set (map fst cs)"
    by (simp add: res part_inv_def d)
  then show "set (all_members (cluster_sheets_v1 mg phase1)) = set (map key_of phase1)"
    unfolding keys .
qed

text \<open>
  C1. When the records of \<open>phase1\<close> have pairwise different keys (the scan yields one
  record per file and sheet name), the member lists of the clusters, taken together,
  hold every key exactly once: no sheet is left out and none is in two clusters or
  twice in one. This holds after Phase A and Phase B of v3, and for the single
  Jaccard phase of the first analyzer, whatever the merge map is.
\<close>

theorem clustering_partition:
  assumes "distinct (map key_of phase1)"
  shows "distinct (all_members (cluster_sheets mg phase1))
       \<and> set (all_members (cluster_sheets mg phase1)) = set (map key_of phase1)
       \<and> distinct (all_members (cluster_sheets_v1 mg phase1))
       \<and> set (all_members (cluster_sheets_v1 mg phase1)) = set (map key_of phase1)"
  using cluster_sheets_partition [OF assms, of mg] cluster_sheets_v1_partition [of mg phase1]
  by simp

lemma ex_books_keys:
  "map key_of ex_books = [cps ''a.xlsx|Parts'', cps ''b.xlsx|Parts'', cps ''c.csv|(csv)'']"
  by (simp add: ex_books_def key_of_def cps_def)

lemma ex_books_distinct: "distinct (map key_of ex_books)"
  by (simp add: ex_books_keys cps_def)

theorem clustering_partition_witness:
  "distinct (map key_of ex_books)
   \<and> distinct (all_members (cluster_sheets Map.empty ex_books))
   \<and> set (all_members (cluster_sheets Map.empty ex_books))
       = {cps ''a.xlsx|Parts'', cps ''b.xlsx|Parts'', cps ''c.csv|(csv)''}
   \<and> distinct (all_members (cluster_sheets_v1 Map.empty ex_books))
   \<and> set (all_members (cluster_sheets_v1 Map.empty ex_books))
       = {cps ''a.xlsx|Parts'', cps ''b.xlsx|Parts'', cps ''c.csv|(csv)''}"
  using clustering_partition [OF ex_books_distinct, of Map.empty] ex_books_distinct
  by (simp add: ex_books_keys)

text \<open>The clusters of the example: one by sheet name, one by the Jaccard phase.\<close>

lemma ex_books_clusters:
  "map (\<lambda>c. (fst c, members (snd c), via (snd c))) (clusters (cluster_sheets Map.empty ex_books))
    = [(1, [cps ''a.xlsx|Parts'', cps ''b.xlsx|Parts''], SheetName), (2, [cps ''c.csv|(csv)''], Jaccard)]"
  by code_simp

section \<open>Properties of the column loop\<close>

lemma profile_columns_v3_closed:
  "profile_columns_v3 attempt asg rec cols st
     = st\<lparr>deep_profiles := deep_profiles st @ entries attempt asg rec cols,
          quality_issues := quality_issues st @ issues flags_v3 attempt rec cols\<rparr>"
  by (induction cols arbitrary: st) (auto simp: entries_def issues_def split: sum.splits)

lemma profile_columns_v2_closed:
  "profile_columns_v2 attempt label asg rec cols st
     = st\<lparr>deep_profiles := deep_profiles st @ entries attempt asg rec cols,
          quality_issues := quality_issues st @ issues flags_v2 attempt rec cols,
          errors_log := errors_log st @ col_errors attempt label rec cols\<rparr>"
  by (induction cols arbitrary: st) (auto simp: entries_def issues_def col_errors_def split: sum.splits)

lemma entries_filter:
  "entries attempt asg rec (filter (succeeds attempt) cols) = entries attempt asg rec cols"
  by (induction cols) (auto simp: entries_def succeeds_def split: sum.splits)

lemma issues_filter:
  "issues flags attempt rec (filter (succeeds attempt) cols) = issues flags attempt rec cols"
  by (induction cols) (auto simp: issues_def succeeds_def split: sum.splits)

lemma profile_columns_v3_filter:
  "profile_columns_v3 attempt asg rec cols st
     = profile_columns_v3 attempt asg rec (filter (succeeds attempt) cols) st"
  by (simp add: profile_columns_v3_closed entries_filter issues_filter)

lemma deep_profile_v3_drop:
  "deep_profile_v3 read attempt asg phase1 st
     = deep_profile_v3 (drop_failing read attempt) attempt asg phase1 st"
proof (induction phase1 arbitrary: st)
  case Nil
  show ?case by simp
next
  case (Cons rec rest)
  show ?case
  proof (cases "read rec")
    case (Inl e)
    with Cons show ?thesis by (simp add: drop_failing_def)
  next
    case (Inr cols)
    with Cons profile_columns_v3_filter [of "attempt rec" asg rec cols st]
    show ?thesis by (simp add: drop_failing_def)
  qed
qed

text \<open>
  C9. A failure while a column is profiled stays at that column. The loops are total:
  they return the final state whatever raises. The state they return is the initial
  one extended by the entries of the columns that raise nothing, each of which depends
  on its own column alone. With a failing column in the list, the entries, the quality
  issues and (in v3) the whole state are those of the list without that column; v2
  adds one line to its error log. The loop over the sheets of v3 gives the same state
  as on the sheets without their failing columns, so the sheets after a failure are
  profiled as well.
\<close>

theorem column_failure_contained:
  "profile_columns_v3 attempt asg rec cols st
     = st\<lparr>deep_profiles := deep_profiles st @ entries attempt asg rec cols,
          quality_issues := quality_issues st @ issues flags_v3 attempt rec cols\<rparr>
   \<and> profile_columns_v2 attempt label asg rec cols st
     = st\<lparr>deep_profiles := deep_profiles st @ entries attempt asg rec cols,
          quality_issues := quality_issues st @ issues flags_v2 attempt rec cols,
          errors_log := errors_log st @ col_errors attempt label rec cols\<rparr>
   \<and> (attempt bad = Inl e \<longrightarrow>
         entries attempt asg rec (pre @ bad # post) = entries attempt asg rec (pre @ post)
       \<and> issues flags attempt rec (pre @ bad # post) = issues flags attempt rec (pre @ post)
       \<and> profile_columns_v3 attempt asg rec (pre @ bad # post) st
           = profile_columns_v3 attempt asg rec (pre @ post) st)
   \<and> deep_profile_v3 read attempt' asg phase1 st
       = deep_profile_v3 (drop_failing read attempt') attempt' asg phase1 st"
proof (intro conjI impI)
  show "profile_columns_v3 attempt asg rec cols st
     = st\<lparr>deep_profiles := deep_profiles st @ entries attempt asg rec cols,
          quality_issues := quality_issues st @ issues flags_v3 attempt rec cols\<rparr>"
    by (rule profile_columns_v3_closed)
  show "profile_columns_v2 attempt label asg rec cols st
     = st\<lparr>deep_profiles := deep_profiles st @ entries attempt asg rec cols,
          quality_issues := quality_issues st @ issues flags_v2 attempt rec cols,
          errors_log := errors_log st @ col_errors attempt label rec cols\<rparr>"
    by (rule profile_columns_v2_closed)
  show "deep_profile_v3 read attempt' asg phase1 st
       = deep_profile_v3 (drop_failing read attempt') attempt' asg phase1 st"
    by (rule deep_profile_v3_drop)
next
  assume bad: "attempt bad = Inl e"
  show e: "entries attempt asg rec (pre @ bad # post) = entries attempt asg rec (pre @ post)"
    using bad by (simp add: entries_def)
  show i: "issues flags attempt rec (pre @ bad # post) = issues flags attempt rec (pre @ post)"
    using bad by (simp add: issues_def)
  show "profile_columns_v3 attempt asg rec (pre @ bad # post) st
           = profile_columns_v3 attempt asg rec (pre @ post) st"
    using bad by (simp add: profile_columns_v3_closed entries_def issues_def)
qed

theorem column_failure_contained_witness:
  "ex_attempt 1 = Inl ''ValueError''
   \<and> profile_columns_v3 ex_attempt Map.empty ex_rec [0, 1, 2] pstate0
       = profile_columns_v3 ex_attempt Map.empty ex_rec [0, 2] pstate0
   \<and> map (\<lambda>en. s_column (fst (snd (snd en))))
         (deep_profiles (profile_columns_v3 ex_attempt Map.empty ex_rec [0, 1, 2] pstate0))
       = [cps ''sku'', cps ''title'']"
proof -
  have b: "ex_attempt 1 = Inl ''ValueError''" by (simp add: ex_attempt_def)
  from column_failure_contained [of ex_attempt Map.empty ex_rec "[0, 1, 2]" pstate0 undefined 1
      "''ValueError''" "[0]" "[2]" undefined undefined undefined undefined,
      THEN conjunct2, THEN conjunct2, THEN conjunct1, rule_format, OF b]
  have "profile_columns_v3 ex_attempt Map.empty ex_rec ([0] @ 1 # [2]) pstate0
       = profile_columns_v3 ex_attempt Map.empty ex_rec ([0] @ [2]) pstate0" by simp
  then have eq: "profile_columns_v3 ex_attempt Map.empty ex_rec [0, 1, 2] pstate0
       = profile_columns_v3 ex_attempt Map.empty ex_rec [0, 2] pstate0" by simp
  have "map (\<lambda>en. s_column (fst (snd (snd en))))
         (deep_profiles (profile_columns_v3 ex_attempt Map.empty ex_rec [0, 2] pstate0))
       = [cps ''sku'', cps ''title'']"
    by (simp add: ex_attempt_def ex_stats_def pstate0_def)
  with b eq show ?thesis by simp
qed

section \<open>Properties of the uniqueness of a column\<close>

text \<open>
  C4. The claim fails in the phased analyzers. The column has two values that are not
  missing, both distinct, and two missing cells: \<open>analyze_spreadsheets.py\<close> reports
  the ratio 1, the phased analyzers report 50 percent, since they divide the number
  of distinct values by the number of all cells.
\<close>

theorem uniqueness_with_nulls:
  "nunique ex_nulls = 2 \<and> length (dropna ex_nulls) = 2
   \<and> uniqueness_pct ex_nulls = 50
   \<and> unique_ratio ascii_space ex_nulls = 1"
  by code_simp

section \<open>The normalizer is idempotent\<close>

lemma collapsed_Cons: "\<not> P c \<Longrightarrow> collapsed P t \<Longrightarrow> collapsed P (c # t)"
  by (cases t) auto

lemma collapsed_tl: "collapsed P (c # t) \<Longrightarrow> collapsed P t"
  by (cases t) auto

lemma cps_us: "cps ''_'' = [95]"
  by (simp add: cps_def)

lemma dropWhile_hd: "dropWhile P s = d # s' \<Longrightarrow> \<not> P d"
  by (metis dropWhile_eq_Cons_conv)

lemma collapsed_sub: "P 95 \<Longrightarrow> collapsed P (re_sub_runs P [95] s)"
proof (induction P "[95::nat]" s rule: re_sub_runs.induct)
  case (1 cls)
  show ?case by simp
next
  case (2 cls c s)
  show ?case
  proof (cases "cls c")
    case False
    with 2 show ?thesis by (simp add: collapsed_Cons)
  next
    case True
    show ?thesis
    proof (cases "dropWhile cls s")
      case Nil
      then have "re_sub_runs cls [95] (dropWhile cls s) = []" by (simp only: re_sub_runs.simps)
      with True show ?thesis by (simp del: dropWhile_eq_Nil_conv)
    next
      case (Cons d s')
      then have nd: "\<not> cls d" by (rule dropWhile_hd)
      from 2(1) [OF True] 2(3) have "collapsed cls (re_sub_runs cls [95] (dropWhile cls s))" by simp
      with True Cons nd show ?thesis by simp
    qed
  qed
qed

lemma sub_collapsed: "collapsed P t \<Longrightarrow> re_sub_runs P [95] t = t"
proof (induction P t rule: collapsed.induct)
  case (1 P)
  show ?case by simp
next
  case (2 P c)
  then show ?case by auto
next
  case (3 P c d s)
  then show ?case by auto
qed

lemma collapsed_set: "collapsed P t \<Longrightarrow> c \<in> set t \<Longrightarrow> P c \<Longrightarrow> c = 95"
  by (induction P t rule: collapsed.induct) auto

lemma collapsed_dropWhile: "collapsed P t \<Longrightarrow> collapsed P (dropWhile Q t)"
  by (induction t) (auto dest: collapsed_tl)

lemma collapsed_prefix: "collapsed P (xs @ ys) \<Longrightarrow> collapsed P xs"
proof (induction P xs rule: collapsed.induct)
  case (1 P)
  show ?case by simp
next
  case (2 P c)
  then show ?case by (cases ys) auto
next
  case (3 P c d s)
  then show ?case by auto
qed

lemma strip_prefix: "\<exists>ys. dropWhile Q s = strip Q s @ ys"
proof -
  have "rev (dropWhile Q s) = takeWhile Q (rev (dropWhile Q s)) @ dropWhile Q (rev (dropWhile Q s))"
    by simp
  then have "dropWhile Q s = rev (dropWhile Q (rev (dropWhile Q s))) @ rev (takeWhile Q (rev (dropWhile Q s)))"
    by (metis rev_append rev_rev_ident)
  then show ?thesis unfolding strip_def by blast
qed

lemma collapsed_strip: "collapsed P t \<Longrightarrow> collapsed P (strip Q t)"
proof -
  assume c: "collapsed P t"
  obtain ys where ys: "dropWhile Q t = strip Q t @ ys" using strip_prefix by blast
  from c have "collapsed P (dropWhile Q t)" by (rule collapsed_dropWhile)
  with ys show ?thesis by (simp add: collapsed_prefix)
qed

lemma strip_set: "set (strip Q s) \<subseteq> set s"
proof -
  obtain ys where ys: "dropWhile Q s = strip Q s @ ys" using strip_prefix by blast
  have "set (strip Q s) \<subseteq> set (dropWhile Q s)" unfolding ys by simp
  then show ?thesis using set_dropWhileD by fastforce
qed

lemma strip_id: "s = [] \<or> (\<not> Q (hd s) \<and> \<not> Q (last s)) \<Longrightarrow> strip Q s = s"
proof (cases s)
  case Nil
  then show ?thesis by (simp add: strip_def)
next
  case (Cons c t)
  assume "s = [] \<or> (\<not> Q (hd s) \<and> \<not> Q (last s))"
  with Cons have h: "\<not> Q (hd s)" and l: "\<not> Q (last s)" by auto
  from h Cons have d: "dropWhile Q s = s" by simp
  from Cons have "s = butlast s @ [last s]" by simp
  then have "rev s = last s # rev (butlast s)" by (metis rev_eq_Cons_iff rev_rev_ident)
  then have "dropWhile Q (rev s) = (if Q (last s) then dropWhile Q (rev (butlast s)) else rev s)"
    by (metis dropWhile.simps(2))
  with l have "dropWhile Q (rev s) = rev s" by simp
  with d show ?thesis by (simp add: strip_def)
qed

lemma strip_ends: "strip Q s = [] \<or> (\<not> Q (hd (strip Q s)) \<and> \<not> Q (last (strip Q s)))"
proof (cases "strip Q s = []")
  case True
  then show ?thesis by simp
next
  case False
  let ?d = "dropWhile Q s"
  let ?r = "dropWhile Q (rev ?d)"
  from False have rne: "?r \<noteq> []" by (simp add: strip_def)
  then have "\<not> Q (hd ?r)" by (rule hd_dropWhile)
  then have l: "\<not> Q (last (strip Q s))" using rne by (simp add: strip_def last_rev)
  obtain ys where ys: "?d = strip Q s @ ys" using strip_prefix by blast
  with False have dne: "?d \<noteq> []" by auto
  then have "\<not> Q (hd ?d)" by (rule hd_dropWhile)
  moreover from ys False have "hd ?d = hd (strip Q s)" by simp
  ultimately show ?thesis using l by simp
qed


lemma sub_none: "\<forall>c\<in>set s. \<not> Q c \<Longrightarrow> re_sub_runs Q rep s = s"
  by (induction s) auto

lemma sub_delete: "c \<in> set (re_sub_runs Q [] s) \<Longrightarrow> \<not> Q c"
proof (induction Q "[]::nat list" s rule: re_sub_runs.induct)
  case (1 cls)
  then show ?case by simp
next
  case (2 cls d s)
  then show ?case by (cases "cls d") auto
qed

lemma strip_none: "\<forall>c\<in>set s. \<not> Q c \<Longrightarrow> strip Q s = s"
proof (rule strip_id)
  assume a: "\<forall>c\<in>set s. \<not> Q c"
  show "s = [] \<or> (\<not> Q (hd s) \<and> \<not> Q (last s))"
  proof (cases "s = []")
    case True
    then show ?thesis by simp
  next
    case False
    then have "hd s \<in> set s" and "last s \<in> set s" by simp_all
    with a show ?thesis by blast
  qed
qed

lemma normalize_col_chars:
  "c \<in> set (normalize_col lower isspace x) \<Longrightarrow> lower_alnum c \<or> c = 95"
proof -
  let ?P = "\<lambda>c. \<not> lower_alnum c"
  let ?t = "re_sub_runs ?P [95] (strip isspace (lower x))"
  assume c: "c \<in> set (normalize_col lower isspace x)"
  have "?P 95" by (simp add: lower_alnum_def)
  then have "collapsed ?P ?t" by (rule collapsed_sub)
  then have "collapsed ?P (strip (\<lambda>c. c = 95) ?t)" by (rule collapsed_strip)
  with c show ?thesis unfolding normalize_col_def cps_us by (blast dest: collapsed_set)
qed

lemma normalize_col_fixed:
  assumes lower_id: "\<And>s. \<forall>c\<in>set s. lower_alnum c \<or> c = 95 \<Longrightarrow> lower s = s"
    and no_space: "\<And>c. lower_alnum c \<or> c = 95 \<Longrightarrow> \<not> isspace c"
  shows "normalize_col lower isspace (normalize_col lower isspace x) = normalize_col lower isspace x"
proof -
  let ?P = "\<lambda>c. \<not> lower_alnum c"
  let ?t = "re_sub_runs ?P [95] (strip isspace (lower x))"
  let ?r = "normalize_col lower isspace x"
  have r: "?r = strip (\<lambda>c. c = 95) ?t" by (simp add: normalize_col_def cps_us)
  have "?P 95" by (simp add: lower_alnum_def)
  then have "collapsed ?P ?t" by (rule collapsed_sub)
  then have col: "collapsed ?P ?r" unfolding r by (rule collapsed_strip)
  have chars: "\<forall>c\<in>set ?r. lower_alnum c \<or> c = 95" by (blast dest: normalize_col_chars)
  then have l: "lower ?r = ?r" by (rule lower_id)
  from chars no_space have "\<forall>c\<in>set ?r. \<not> isspace c" by blast
  then have s: "strip isspace ?r = ?r" by (rule strip_none)
  from col have u: "re_sub_runs ?P [95] ?r = ?r" by (rule sub_collapsed)
  have e: "strip (\<lambda>c. c = 95) ?r = ?r" unfolding r by (rule strip_id) (rule strip_ends)
  have "normalize_col lower isspace ?r = strip (\<lambda>c. c = 95) (re_sub_runs ?P [95] (strip isspace (lower ?r)))"
    by (simp only: normalize_col_def cps_us)
  also have "\<dots> = ?r" by (simp only: l s u e)
  finally show ?thesis .
qed

lemma normalize_col_a_chars:
  "c \<in> set (normalize_col_a lower isspace x) \<Longrightarrow> lower_alnum c \<or> c = 95"
  by (auto simp: normalize_col_a_def Let_def cps_def lower_alnum_def dest: sub_delete split: if_splits)

lemma normalize_col_a_nonempty: "normalize_col_a lower isspace x \<noteq> []"
  by (simp add: normalize_col_a_def Let_def cps_def)

lemma normalize_col_a_fixed:
  assumes lower_id: "\<And>s. \<forall>c\<in>set s. lower_alnum c \<or> c = 95 \<Longrightarrow> lower s = s"
    and no_space: "\<And>c. lower_alnum c \<or> c = 95 \<Longrightarrow> \<not> isspace c"
  shows "normalize_col_a lower isspace (normalize_col_a lower isspace x) = normalize_col_a lower isspace x"
proof -
  let ?r = "normalize_col_a lower isspace x"
  have chars: "\<forall>c\<in>set ?r. lower_alnum c \<or> c = 95" by (blast dest: normalize_col_a_chars)
  then have l: "lower ?r = ?r" by (rule lower_id)
  from chars no_space have sp: "\<forall>c\<in>set ?r. \<not> isspace c" by blast
  then have s: "strip isspace ?r = ?r" by (rule strip_none)
  from sp have u: "re_sub_runs isspace (cps ''_'') ?r = ?r" by (rule sub_none)
  from chars have d: "re_sub_runs (\<lambda>c. \<not> (lower_alnum c \<or> c = 95)) [] ?r = ?r" by (intro sub_none) blast
  have ne: "?r \<noteq> []" by (rule normalize_col_a_nonempty)
  have "normalize_col_a lower isspace ?r =
      (let s = lower (strip isspace ?r); s = re_sub_runs isspace (cps ''_'') s;
           s = re_sub_runs (\<lambda>c. \<not> (lower_alnum c \<or> c = 95)) [] s
       in if s = [] then cps ''unnamed'' else s)"
    by (simp only: normalize_col_a_def)
  also have "\<dots> = ?r" using ne by (simp only: s l u d Let_def if_False)
  finally show ?thesis .
qed

lemma ascii_lower_id: "\<forall>c\<in>set s. lower_alnum c \<or> c = 95 \<Longrightarrow> ascii_lower s = s"
  unfolding ascii_lower_def by (rule map_idI) (auto simp: lower_alnum_def)

lemma ascii_space_none: "lower_alnum c \<or> c = 95 \<Longrightarrow> \<not> ascii_space c"
  by (auto simp: lower_alnum_def ascii_space_def)

lemma ex_header_norm:
  "normalize_col ascii_lower ascii_space ex_header = cps ''part_no_oem''
   \<and> normalize_col_a ascii_lower ascii_space ex_header = cps ''partno_oem''"
  by code_simp

text \<open>
  Claim C2. The column-name normalizer is idempotent:
  \<open>normalize_col(normalize_col(x)) = normalize_col(x)\<close> for every raw name \<open>x\<close>, for the
  normalizer of the phased analyzers and for the one of \<open>analyze_spreadsheets.py\<close>.
  \<open>x\<close> is the text \<open>str(name)\<close>, and \<open>str\<close> of a text is that text. Of Python the
  proof uses two facts: \<open>str.lower\<close> leaves a text over \<open>[a-z0-9_]\<close> as it is, and no
  character of \<open>[a-z0-9_]\<close> is whitespace.
\<close>

theorem normalize_idempotent:
  assumes "\<And>s. \<forall>c\<in>set s. lower_alnum c \<or> c = 95 \<Longrightarrow> lower s = s"
    and "\<And>c. lower_alnum c \<or> c = 95 \<Longrightarrow> \<not> isspace c"
  shows "normalize_col lower isspace (normalize_col lower isspace x) = normalize_col lower isspace x
       \<and> normalize_col_a lower isspace (normalize_col_a lower isspace x) = normalize_col_a lower isspace x"
  using assms by (simp add: normalize_col_fixed normalize_col_a_fixed)

theorem normalize_idempotent_witness:
  "normalize_col ascii_lower ascii_space (normalize_col ascii_lower ascii_space ex_header)
     = normalize_col ascii_lower ascii_space ex_header
   \<and> normalize_col_a ascii_lower ascii_space (normalize_col_a ascii_lower ascii_space ex_header)
     = normalize_col_a ascii_lower ascii_space ex_header"
  by (rule normalize_idempotent [OF ascii_lower_id ascii_space_none])

section \<open>Redundancy groups\<close>

lemma fps_from_distinct:
  "distinct (map fst m) \<Longrightarrow> distinct (map fst (fps_from sig md5 m ps))"
  by (induction ps arbitrary: m) (simp_all add: dl_append_distinct)

lemma fps_from_map_of:
  "map_of (fps_from sig md5 m ps) fp =
     (case map_of m fp of
        None \<Rightarrow> (if filter (\<lambda>r. md5 (sig r) = fp) ps = [] then None
                 else Some (map key_of (filter (\<lambda>r. md5 (sig r) = fp) ps)))
      | Some vs \<Rightarrow> Some (vs @ map key_of (filter (\<lambda>r. md5 (sig r) = fp) ps)))"
proof (induction ps arbitrary: m)
  case Nil
  show ?case by (simp split: option.splits)
next
  case (Cons r ps)
  show ?case by (simp add: Cons dl_append_map_of split: option.splits)
qed

lemma fps_from_mem:
  "(fp, m) \<in> set (fps_from sig md5 [] ps)
     \<longleftrightarrow> m = map key_of (filter (\<lambda>r. md5 (sig r) = fp) ps) \<and> m \<noteq> []"
proof -
  have d: "distinct (map fst (fps_from sig md5 [] ps))" by (rule fps_from_distinct) simp
  have "(fp, m) \<in> set (fps_from sig md5 [] ps) \<longleftrightarrow> map_of (fps_from sig md5 [] ps) fp = Some m"
    using d by simp
  then show ?thesis by (auto simp: fps_from_map_of)
qed

lemma two_mem: "x \<in> set m \<Longrightarrow> y \<in> set m \<Longrightarrow> x \<noteq> y \<Longrightarrow> 1 < length m"
  by (cases m; cases "tl m") auto

lemma same_group_iff:
  assumes d: "distinct (map key_of ps)" and a: "a \<in> set ps" and b: "b \<in> set ps" and ab: "a \<noteq> b"
  shows "same_group (redundant (fps_from sig md5 [] ps)) (key_of a) (key_of b)
           \<longleftrightarrow> md5 (sig a) = md5 (sig b)"
proof
  from d have inj: "inj_on key_of (set ps)" by (simp add: distinct_map)
  {
    assume "same_group (redundant (fps_from sig md5 [] ps)) (key_of a) (key_of b)"
    then obtain fp m where mem: "(fp, m) \<in> set (fps_from sig md5 [] ps)"
      and ka: "key_of a \<in> set m" and kb: "key_of b \<in> set m"
      by (auto simp: same_group_def redundant_def)
    from mem have m: "m = map key_of (filter (\<lambda>r. md5 (sig r) = fp) ps)"
      by (simp add: fps_from_mem)
    from ka m obtain r where r: "r \<in> set ps" "md5 (sig r) = fp" "key_of r = key_of a" by auto
    with inj a have "r = a" by (auto dest: inj_onD)
    with r have fa: "md5 (sig a) = fp" by simp
    from kb m obtain r' where r': "r' \<in> set ps" "md5 (sig r') = fp" "key_of r' = key_of b" by auto
    with inj b have "r' = b" by (auto dest: inj_onD)
    with r' have "md5 (sig b) = fp" by simp
    with fa show "md5 (sig a) = md5 (sig b)" by simp
  }
  {
    assume e: "md5 (sig a) = md5 (sig b)"
    let ?fp = "md5 (sig a)"
    let ?m = "map key_of (filter (\<lambda>r. md5 (sig r) = ?fp) ps)"
    from a have ka: "key_of a \<in> set ?m" by simp
    from b e have kb: "key_of b \<in> set ?m" by simp
    from inj a b ab have "key_of a \<noteq> key_of b" by (auto dest: inj_onD)
    with ka kb have l: "1 < length ?m" by (rule two_mem)
    then have "?m \<noteq> []" by auto
    then have "(?fp, ?m) \<in> set (fps_from sig md5 [] ps)" by (simp add: fps_from_mem)
    with l have "(?fp, ?m) \<in> set (redundant (fps_from sig md5 [] ps))" by (simp add: redundant_def)
    with ka kb show "same_group (redundant (fps_from sig md5 [] ps)) (key_of a) (key_of b)"
      unfolding same_group_def by blast
  }
qed

lemma split_bar_free: "124 \<notin> set x \<Longrightarrow> split_bar x = [x]"
  by (induction x) auto

lemma split_bar_app: "124 \<notin> set x \<Longrightarrow> split_bar (x @ 124 # s) = x # split_bar s"
  by (induction x) auto

lemma split_join:
  "\<forall>x\<in>set xs. 124 \<notin> set x \<Longrightarrow> split_bar (join_bar xs) = (if xs = [] then [[]] else xs)"
  by (induction xs rule: join_bar.induct) (simp_all add: split_bar_free split_bar_app)

lemma join_bar_eq:
  assumes "\<forall>x\<in>set xs. 124 \<notin> set x" and "\<forall>y\<in>set ys. 124 \<notin> set y"
  shows "join_bar xs = join_bar ys
     \<longleftrightarrow> (if xs = [] then [[]] else xs) = (if ys = [] then [[]] else ys)"
proof
  assume "join_bar xs = join_bar ys"
  then have "split_bar (join_bar xs) = split_bar (join_bar ys)" by simp
  with assms show "(if xs = [] then [[]] else xs) = (if ys = [] then [[]] else ys)"
    by (simp only: split_join)
next
  assume "(if xs = [] then [[]] else xs) = (if ys = [] then [[]] else ys)"
  then have "join_bar (if xs = [] then [[]] else xs) = join_bar (if ys = [] then [[]] else ys)"
    by simp
  then show "join_bar xs = join_bar ys" by (simp split: if_splits)
qed

lemma join_bar_inj:
  assumes "\<forall>x\<in>set xs. 124 \<notin> set x \<and> x \<noteq> []" and "\<forall>y\<in>set ys. 124 \<notin> set y \<and> y \<noteq> []"
  shows "join_bar xs = join_bar ys \<longleftrightarrow> xs = ys"
proof -
  from assms have "join_bar xs = join_bar ys
     \<longleftrightarrow> (if xs = [] then [[]] else xs) = (if ys = [] then [[]] else ys)"
    by (intro join_bar_eq) auto
  also from assms have "\<dots> \<longleftrightarrow> xs = ys" by (auto split: if_splits)
  finally show ?thesis .
qed

lemma scan_bar_free:
  assumes "r \<in> set (phase1_of lower isspace sheets)" and "n \<in> set (r_norm_cols r)"
  shows "124 \<notin> set n"
proof -
  from assms obtain h where "n = normalize_col lower isspace h"
    by (auto simp: phase1_of_def scan_rec_def split: prod.splits)
  then have "\<forall>c\<in>set n. lower_alnum c \<or> c = 95" by (blast dest: normalize_col_chars)
  then show ?thesis by (auto simp: lower_alnum_def)
qed

lemma set_sorted_names: "set (sorted_names r) = set (r_norm_cols r) - {[]}"
  by (auto simp: sorted_names_def)

lemma sorted_names_set:
  "sorted_names r = sorted_list_of_set (set (r_norm_cols r) - {[]})"
proof -
  have "set (filter (\<lambda>n. n \<noteq> []) (r_norm_cols r)) = set (r_norm_cols r) - {[]}" by auto
  then show ?thesis unfolding sorted_names_def
    by (metis sorted_list_of_set_sort_remdups)
qed

lemma length_sorted_names: "length (sorted_names r) = card (set (r_norm_cols r) - {[]})"
  unfolding sorted_names_set by simp

lemma sheet_sig_eq:
  assumes a: "a \<in> set (phase1_of lower isspace sheets)" and b: "b \<in> set (phase1_of lower isspace sheets)"
  shows "sheet_sig a = sheet_sig b \<longleftrightarrow> take 30 (sorted_names a) = take 30 (sorted_names b)"
  unfolding sheet_sig_def
proof (rule join_bar_inj)
  show "\<forall>x\<in>set (take 30 (sorted_names a)). 124 \<notin> set x \<and> x \<noteq> []"
    using scan_bar_free [OF a] set_sorted_names [of a] by (auto dest!: in_set_takeD)
  show "\<forall>y\<in>set (take 30 (sorted_names b)). 124 \<notin> set y \<and> y \<noteq> []"
    using scan_bar_free [OF b] set_sorted_names [of b] by (auto dest!: in_set_takeD)
qed

lemma sort_eq_mset: "sort xs = sort ys \<longleftrightarrow> mset xs = mset ys"
proof
  assume "sort xs = sort ys"
  then have "mset (sort xs) = mset (sort ys)" by simp
  then show "mset xs = mset ys" by simp
next
  assume "mset xs = mset ys"
  then show "sort xs = sort ys" by (simp add: properties_for_sort)
qed

lemma take20_nil: "take 20 xs = [] \<longleftrightarrow> xs = []"
  by simp

lemma take20_single: "take 20 xs = [x] \<longleftrightarrow> xs = [x]"
  by (cases xs; cases "tl xs") auto

lemma sort_nil: "sort xs = [] \<longleftrightarrow> xs = []"
  by (metis length_sort length_0_conv)

lemma sort_single: "sort xs = [x] \<longleftrightarrow> xs = [x]"
  by (metis sort_eq_mset mset_single_iff_right mset.simps(1) mset.simps(2) sort_key_simps(1) sort_key_simps(2) insort_key.simps(1) add_mset_eq_single mset_zero_iff)

lemma sheet_sig_v1_eq:
  assumes a: "a \<in> set (phase1_of lower isspace sheets)" and b: "b \<in> set (phase1_of lower isspace sheets)"
  shows "sheet_sig_v1 a = sheet_sig_v1 b
     \<longleftrightarrow> mset (take 20 (r_norm_cols a)) = mset (take 20 (r_norm_cols b))
         \<or> (r_norm_cols a = [] \<and> r_norm_cols b = [[]])
         \<or> (r_norm_cols a = [[]] \<and> r_norm_cols b = [])"
proof -
  let ?xs = "sort (take 20 (r_norm_cols a))"
  let ?ys = "sort (take 20 (r_norm_cols b))"
  have fa: "\<forall>x\<in>set ?xs. 124 \<notin> set x" using scan_bar_free [OF a] by (auto dest!: in_set_takeD)
  have fb: "\<forall>y\<in>set ?ys. 124 \<notin> set y" using scan_bar_free [OF b] by (auto dest!: in_set_takeD)
  have xn: "?xs = [] \<longleftrightarrow> r_norm_cols a = []" by (simp only: sort_nil take20_nil)
  have yn: "?ys = [] \<longleftrightarrow> r_norm_cols b = []" by (simp only: sort_nil take20_nil)
  have xs: "?xs = [[]] \<longleftrightarrow> r_norm_cols a = [[]]" by (simp only: sort_single take20_single)
  have ys: "?ys = [[]] \<longleftrightarrow> r_norm_cols b = [[]]" by (simp only: sort_single take20_single)
  have "sheet_sig_v1 a = sheet_sig_v1 b
     \<longleftrightarrow> (if ?xs = [] then [[]] else ?xs) = (if ?ys = [] then [[]] else ?ys)"
    unfolding sheet_sig_v1_def using fa fb by (rule join_bar_eq)
  also have "\<dots> \<longleftrightarrow> ?xs = ?ys \<or> (?xs = [] \<and> ?ys = [[]]) \<or> (?xs = [[]] \<and> ?ys = [])"
    by (auto split: if_splits)
  also have "\<dots> \<longleftrightarrow> mset (take 20 (r_norm_cols a)) = mset (take 20 (r_norm_cols b))
         \<or> (r_norm_cols a = [] \<and> r_norm_cols b = [[]])
         \<or> (r_norm_cols a = [[]] \<and> r_norm_cols b = [])"
    by (simp only: sort_eq_mset xn yn xs ys)
  finally show ?thesis .
qed


lemma merge_inner_none:
  "ki \<notin> set rest \<Longrightarrow> merge_inner ex_no_merge ki rest mg = mg"
  by (induction rest arbitrary: mg) (auto simp: ex_no_merge_def COL_SIM_THRESH_def)

lemma merge_outer_none:
  "distinct keys \<Longrightarrow> merge_outer ex_no_merge keys mg = mg"
  by (induction keys arbitrary: mg) (auto simp: merge_inner_none)

lemma merged_none: "merged ex_no_merge (norm_keys ps) = Map.empty"
  unfolding merged_def by (rule merge_outer_none) (rule distinct_norm_keys)

lemma merged_none_v1: "merged ex_no_merge (norm_keys_v1 ps) = Map.empty"
  unfolding merged_def by (rule merge_outer_none) (rule distinct_norm_keys)

lemma ex_phase1_of:
  "phase1_of ascii_lower ascii_space ex_sheets
     = [ex_parts, ex_items, \<lparr>r_file = cps ''c.csv'', r_sheet = cps ''(csv)'', r_norm_cols = [cps ''make'', cps ''model'']\<rparr>]"
  by code_simp

lemma ex_sheets_facts:
  "distinct (map key_of [ex_parts, ex_items, \<lparr>r_file = cps ''c.csv'', r_sheet = cps ''(csv)'', r_norm_cols = [cps ''make'', cps ''model'']\<rparr>])"
  "ex_parts \<noteq> ex_items"
  "set (r_norm_cols ex_parts) - {[]} = set (r_norm_cols ex_items) - {[]}"
  "mset (take 20 (r_norm_cols ex_parts)) \<noteq> mset (take 20 (r_norm_cols ex_items))"
  "r_norm_cols ex_parts \<noteq> []" "r_norm_cols ex_items \<noteq> []"
  by code_simp+

lemma ex_plural:
  "colset (merged ex_ratio (norm_keys ex_phase1)) (ex_phase1 ! 0)
     = colset (merged ex_ratio (norm_keys ex_phase1)) (ex_phase1 ! 1)"
  "sheet_sig (ex_phase1 ! 0) \<noteq> sheet_sig (ex_phase1 ! 1)"
  by code_simp+

lemma ex_wide_sig:
  "sheet_sig ex_wide31 = sheet_sig ex_wide30"
  "sheet_sig_v1 ex_wide21 = sheet_sig_v1 ex_wide20"
  by code_simp+

lemma ex_wide_sets:
  "colset Map.empty ex_wide31 = insert (cps ''u'') (colset Map.empty ex_wide30)"
  "cps ''u'' \<notin> colset Map.empty ex_wide30"
  "colset_v1 Map.empty ex_wide21 = insert (cps ''k'') (colset_v1 Map.empty ex_wide20)"
  "cps ''k'' \<notin> colset_v1 Map.empty ex_wide20"
  "colset_v1 Map.empty ex_twice = colset_v1 Map.empty ex_once"
  "sheet_sig_v1 ex_twice \<noteq> sheet_sig_v1 ex_once"
  by code_simp+

lemma ex_wide_keys:
  "distinct (map key_of [ex_wide31, ex_wide30])" "ex_wide31 \<noteq> ex_wide30"
  "distinct (map key_of [ex_wide21, ex_wide20])" "ex_wide21 \<noteq> ex_wide20"
  by code_simp+

text \<open>
  C7 (as amended). The sheets are those that the scan of phase 1 records, their keys
  distinct. Two of them land in the same redundancy group exactly when the digests of
  their signatures agree. In \<open>phased_analyzer_v3.py\<close> the signatures agree exactly
  when the first 30 of the sorted distinct non-empty normalized names agree: always
  when the sets of non-empty normalized names are equal, and, for two sheets of at most
  30 such names each, only when these sets are equal. In \<open>phased_analyzer.py\<close> the
  signatures agree exactly when the first 20 normalized names in the order of the
  sheet agree as multisets, a sheet without columns and a sheet whose only column has
  an empty name being alike. The merged canonical identity plays no part in either.
\<close>

theorem redundancy_groups:
  assumes "ps = phase1_of lower isspace sheets" and "distinct (map key_of ps)"
    and "a \<in> set ps" and "b \<in> set ps" and "a \<noteq> b"
  shows "(same_group (redundant (sheet_fps md5 ps)) (key_of a) (key_of b)
            \<longleftrightarrow> md5 (sheet_sig a) = md5 (sheet_sig b))
       \<and> (sheet_sig a = sheet_sig b \<longleftrightarrow> take 30 (sorted_names a) = take 30 (sorted_names b))
       \<and> (set (r_norm_cols a) - {[]} = set (r_norm_cols b) - {[]} \<longrightarrow> sheet_sig a = sheet_sig b)
       \<and> (card (set (r_norm_cols a) - {[]}) \<le> 30 \<and> card (set (r_norm_cols b) - {[]}) \<le> 30
            \<and> sheet_sig a = sheet_sig b
            \<longrightarrow> set (r_norm_cols a) - {[]} = set (r_norm_cols b) - {[]})
       \<and> (same_group (redundant (sheet_fingerprints md5 ps)) (key_of a) (key_of b)
            \<longleftrightarrow> md5 (sheet_sig_v1 a) = md5 (sheet_sig_v1 b))
       \<and> (sheet_sig_v1 a = sheet_sig_v1 b
            \<longleftrightarrow> mset (take 20 (r_norm_cols a)) = mset (take 20 (r_norm_cols b))
                \<or> (r_norm_cols a = [] \<and> r_norm_cols b = [[]])
                \<or> (r_norm_cols a = [[]] \<and> r_norm_cols b = []))"
proof -
  from assms have a: "a \<in> set (phase1_of lower isspace sheets)"
    and b: "b \<in> set (phase1_of lower isspace sheets)" by simp_all
  have g3: "same_group (redundant (sheet_fps md5 ps)) (key_of a) (key_of b)
            \<longleftrightarrow> md5 (sheet_sig a) = md5 (sheet_sig b)"
    unfolding sheet_fps_def using assms(2-5) by (rule same_group_iff)
  have g1: "same_group (redundant (sheet_fingerprints md5 ps)) (key_of a) (key_of b)
            \<longleftrightarrow> md5 (sheet_sig_v1 a) = md5 (sheet_sig_v1 b)"
    unfolding sheet_fingerprints_def using assms(2-5) by (rule same_group_iff)
  have s3: "sheet_sig a = sheet_sig b \<longleftrightarrow> take 30 (sorted_names a) = take 30 (sorted_names b)"
    using a b by (rule sheet_sig_eq)
  have c3: "set (r_norm_cols a) - {[]} = set (r_norm_cols b) - {[]} \<longrightarrow> sheet_sig a = sheet_sig b"
    by (simp add: sheet_sig_def sorted_names_set)
  have d3: "card (set (r_norm_cols a) - {[]}) \<le> 30 \<and> card (set (r_norm_cols b) - {[]}) \<le> 30
            \<and> sheet_sig a = sheet_sig b
            \<longrightarrow> set (r_norm_cols a) - {[]} = set (r_norm_cols b) - {[]}"
  proof (intro impI, elim conjE)
    assume ca: "card (set (r_norm_cols a) - {[]}) \<le> 30" and cb: "card (set (r_norm_cols b) - {[]}) \<le> 30"
      and e: "sheet_sig a = sheet_sig b"
    from e s3 have "take 30 (sorted_names a) = take 30 (sorted_names b)" by simp
    with ca cb have "sorted_names a = sorted_names b" by (simp add: length_sorted_names)
    then have "set (sorted_names a) = set (sorted_names b)" by simp
    then show "set (r_norm_cols a) - {[]} = set (r_norm_cols b) - {[]}" by (simp only: set_sorted_names)
  qed
  have s1: "sheet_sig_v1 a = sheet_sig_v1 b
            \<longleftrightarrow> mset (take 20 (r_norm_cols a)) = mset (take 20 (r_norm_cols b))
                \<or> (r_norm_cols a = [] \<and> r_norm_cols b = [[]])
                \<or> (r_norm_cols a = [[]] \<and> r_norm_cols b = [])"
    using a b by (rule sheet_sig_v1_eq)
  from g3 s3 c3 d3 g1 s1 show ?thesis by blast
qed

text \<open>
  Three scanned sheets: \<open>Parts\<close> and \<open>Items\<close> have the same names, \<open>Items\<close> one of them
  twice. With the signature itself as digest, v3 groups the two and the first analyzer
  does not.
\<close>

theorem redundancy_groups_witness:
  "distinct (map key_of (phase1_of ascii_lower ascii_space ex_sheets))
   \<and> ex_parts \<in> set (phase1_of ascii_lower ascii_space ex_sheets)
   \<and> ex_items \<in> set (phase1_of ascii_lower ascii_space ex_sheets)
   \<and> ex_parts \<noteq> ex_items
   \<and> set (r_norm_cols ex_parts) - {[]} = set (r_norm_cols ex_items) - {[]}
   \<and> sheet_sig ex_parts = sheet_sig ex_items
   \<and> same_group (redundant (sheet_fps (\<lambda>s. s) (phase1_of ascii_lower ascii_space ex_sheets)))
         (key_of ex_parts) (key_of ex_items)
   \<and> mset (take 20 (r_norm_cols ex_parts)) \<noteq> mset (take 20 (r_norm_cols ex_items))
   \<and> \<not> same_group (redundant (sheet_fingerprints (\<lambda>s. s) (phase1_of ascii_lower ascii_space ex_sheets)))
         (key_of ex_parts) (key_of ex_items)"
proof -
  let ?ps = "phase1_of ascii_lower ascii_space ex_sheets"
  have d: "distinct (map key_of ?ps)" unfolding ex_phase1_of by (rule ex_sheets_facts)
  have a: "ex_parts \<in> set ?ps" and b: "ex_items \<in> set ?ps" unfolding ex_phase1_of by simp_all
  note ne = ex_sheets_facts(2)
  note t = redundancy_groups [OF refl d a b ne, of "\<lambda>s. s"]
  note se = ex_sheets_facts(3)
  from t se have sg: "sheet_sig ex_parts = sheet_sig ex_items" by blast
  with t have g: "same_group (redundant (sheet_fps (\<lambda>s. s) ?ps)) (key_of ex_parts) (key_of ex_items)"
    by blast
  note m = ex_sheets_facts(4)
  from t m ex_sheets_facts(5,6)
  have "sheet_sig_v1 ex_parts \<noteq> sheet_sig_v1 ex_items" by blast
  with t have g1: "\<not> same_group (redundant (sheet_fingerprints (\<lambda>s. s) ?ps)) (key_of ex_parts) (key_of ex_items)"
    by blast
  from d a b ne se sg g m g1 show ?thesis by blast
qed

text \<open>
  C7 as stated fails. The sheets with \<open>part_number\<close> and \<open>part_numbers\<close> have the same
  canonical column set and different signatures. A sheet of 31 columns and a sheet of
  the first 30 of them differ by one canonical column and v3 gives them one signature,
  so one group for every digest; the first analyzer does so for 21 and 20 columns. A
  sheet that repeats a header and a sheet that has it once have the same canonical
  column set and different signatures in the first analyzer.
\<close>

theorem redundancy_counterexample:
  "colset (merged ex_ratio (norm_keys ex_phase1)) (ex_phase1 ! 0)
     = colset (merged ex_ratio (norm_keys ex_phase1)) (ex_phase1 ! 1)
   \<and> sheet_sig (ex_phase1 ! 0) \<noteq> sheet_sig (ex_phase1 ! 1)
   \<and> colset (merged ex_no_merge (norm_keys [ex_wide31, ex_wide30])) ex_wide31
       = insert (cps ''u'') (colset (merged ex_no_merge (norm_keys [ex_wide31, ex_wide30])) ex_wide30)
   \<and> cps ''u'' \<notin> colset (merged ex_no_merge (norm_keys [ex_wide31, ex_wide30])) ex_wide30
   \<and> sheet_sig ex_wide31 = sheet_sig ex_wide30
   \<and> (\<forall>md5 :: pystr \<Rightarrow> pystr.
         same_group (redundant (sheet_fps md5 [ex_wide31, ex_wide30])) (key_of ex_wide31) (key_of ex_wide30))
   \<and> colset_v1 (merged ex_no_merge (norm_keys_v1 [ex_twice, ex_once])) ex_twice
       = colset_v1 (merged ex_no_merge (norm_keys_v1 [ex_twice, ex_once])) ex_once
   \<and> sheet_sig_v1 ex_twice \<noteq> sheet_sig_v1 ex_once
   \<and> colset_v1 (merged ex_no_merge (norm_keys_v1 [ex_wide21, ex_wide20])) ex_wide21
       = insert (cps ''k'') (colset_v1 (merged ex_no_merge (norm_keys_v1 [ex_wide21, ex_wide20])) ex_wide20)
   \<and> cps ''k'' \<notin> colset_v1 (merged ex_no_merge (norm_keys_v1 [ex_wide21, ex_wide20])) ex_wide20
   \<and> sheet_sig_v1 ex_wide21 = sheet_sig_v1 ex_wide20
   \<and> (\<forall>md5 :: pystr \<Rightarrow> pystr.
         same_group (redundant (sheet_fingerprints md5 [ex_wide21, ex_wide20])) (key_of ex_wide21) (key_of ex_wide20))"
proof -
  have g3: "\<forall>md5 :: pystr \<Rightarrow> pystr.
      same_group (redundant (sheet_fps md5 [ex_wide31, ex_wide30])) (key_of ex_wide31) (key_of ex_wide30)"
  proof
    fix md5 :: "pystr \<Rightarrow> pystr"
    have "same_group (redundant (fps_from sheet_sig md5 [] [ex_wide31, ex_wide30])) (key_of ex_wide31) (key_of ex_wide30)
        \<longleftrightarrow> md5 (sheet_sig ex_wide31) = md5 (sheet_sig ex_wide30)"
      using ex_wide_keys(1) _ _ ex_wide_keys(2) by (rule same_group_iff) simp_all
    then show "same_group (redundant (sheet_fps md5 [ex_wide31, ex_wide30])) (key_of ex_wide31) (key_of ex_wide30)"
      unfolding sheet_fps_def by (simp only: ex_wide_sig(1))
  qed
  have g1: "\<forall>md5 :: pystr \<Rightarrow> pystr.
      same_group (redundant (sheet_fingerprints md5 [ex_wide21, ex_wide20])) (key_of ex_wide21) (key_of ex_wide20)"
  proof
    fix md5 :: "pystr \<Rightarrow> pystr"
    have "same_group (redundant (fps_from sheet_sig_v1 md5 [] [ex_wide21, ex_wide20])) (key_of ex_wide21) (key_of ex_wide20)
        \<longleftrightarrow> md5 (sheet_sig_v1 ex_wide21) = md5 (sheet_sig_v1 ex_wide20)"
      using ex_wide_keys(3) _ _ ex_wide_keys(4) by (rule same_group_iff) simp_all
    then show "same_group (redundant (sheet_fingerprints md5 [ex_wide21, ex_wide20])) (key_of ex_wide21) (key_of ex_wide20)"
      unfolding sheet_fingerprints_def by (simp only: ex_wide_sig(2))
  qed
  from ex_plural ex_wide_sig ex_wide_sets g3 g1 show ?thesis
    unfolding merged_none merged_none_v1 by blast
qed

end
